theory Spec2Isabelle
  imports Main
begin

section \<open>Values and the environment of the ingestion pipeline\<close>

text \<open>
  Python exceptions are values. The standard library and the third-party packages
  (pypdf, the text splitter, the JSON decoder) raise exceptions of their own; they reach
  the model through the environment below, so the datatype only has to tell them apart
  from the one exception that the source raises itself.
\<close>

datatype error = FileNotFoundError string | LibraryError string

text \<open>
  A manifest value is whatever \<^verbatim>\<open>json.load\<close> can produce for a dictionary entry
  (the source types an entry as \<^verbatim>\<open>Dict[str, Any]\<close>). Fractional JSON numbers are not
  represented.
\<close>

datatype json =
    JNull
  | JBool bool
  | JInt int
  | JStr string
  | JArr "json list"
  | JObj "(string \<times> json) list"

type_synonym item = "string \<rightharpoonup> json"

text \<open>Page text is a Python \<^verbatim>\<open>str\<close>: a list of Unicode code points.\<close>

type_synonym utext = "nat list"

text \<open>
  What pypdf gives for one page: \<^verbatim>\<open>page.extract_text()\<close> raises, or returns a string
  or \<^verbatim>\<open>None\<close>.
\<close>

datatype pdf_page = ExtractRaises | ExtractReturns "utext option"

text \<open>
  The external collaborators, as functions of the run's environment:
  \<^verbatim>\<open>os.path.isfile\<close>, \<^verbatim>\<open>os.path.basename\<close>, \<^verbatim>\<open>open\<close> followed by \<^verbatim>\<open>json.load\<close>,
  \<^verbatim>\<open>PdfReader(path).pages\<close>, the built-in \<^verbatim>\<open>int\<close> on a string (\<open>None\<close> is its
  \<^verbatim>\<open>ValueError\<close>), and the constructor of \<^verbatim>\<open>RecursiveCharacterTextSplitter\<close>, which
  gives the \<^verbatim>\<open>split_text\<close> function of the splitter it builds.
  The file system does not change during a run.
\<close>

record env =
  isfile :: "json \<Rightarrow> error + bool"
  basename :: "json \<Rightarrow> error + string"
  json_load :: "string \<Rightarrow> error + item list"
  PdfReader :: "json \<Rightarrow> error + pdf_page list"
  int_of_str :: "string \<Rightarrow> int option"
  RecursiveCharacterTextSplitter :: "int \<Rightarrow> int \<Rightarrow> error + (utext \<Rightarrow> utext list)"

section \<open>Page extraction and chunking (utils/pdf\_utils.py)\<close>

text \<open>
  The body of the loop over \<^verbatim>\<open>reader.pages\<close>: \<^verbatim>\<open>page.extract_text() or ""\<close>
  inside \<^verbatim>\<open>try\<close>, the empty string in the \<^verbatim>\<open>except\<close> branch.
\<close>

fun page_txt :: "pdf_page \<Rightarrow> utext" where
  "page_txt ExtractRaises = []"
| "page_txt (ExtractReturns None) = []"
| "page_txt (ExtractReturns (Some t)) = (if t \<noteq> [] then t else [])"

fun extract_loop :: "pdf_page list \<Rightarrow> utext list \<Rightarrow> utext list" where
  "extract_loop [] pages = pages"
| "extract_loop (pg # pgs) pages = extract_loop pgs (pages @ [page_txt pg])"

definition extract_pdf_text_by_page :: "env \<Rightarrow> json \<Rightarrow> error + utext list" where
  "extract_pdf_text_by_page e path =
     (case isfile e path of
        Inl err \<Rightarrow> Inl err
      | Inr False \<Rightarrow> Inr []
      | Inr True \<Rightarrow>
          (case PdfReader e path of
             Inl err \<Rightarrow> Inl err
           | Inr reader_pages \<Rightarrow> Inr (extract_loop reader_pages [])))"

text \<open>
  \<^verbatim>\<open>str.strip()\<close> without arguments removes leading and trailing white space, that is
  the code points for which \<^verbatim>\<open>str.isspace\<close> holds.
\<close>

definition py_isspace :: "nat \<Rightarrow> bool" where
  "py_isspace c \<longleftrightarrow>
     (9 \<le> c \<and> c \<le> 13) \<or> (28 \<le> c \<and> c \<le> 32) \<or> c = 133 \<or> c = 160 \<or> c = 5760 \<or>
     (8192 \<le> c \<and> c \<le> 8202) \<or> c = 8232 \<or> c = 8233 \<or> c = 8239 \<or> c = 8287 \<or> c = 12288"

definition py_strip :: "utext \<Rightarrow> utext" where
  "py_strip s = rev (dropWhile py_isspace (rev (dropWhile py_isspace s)))"

record chunk =
  page :: int
  idx :: int
  chunk_text :: utext

text \<open>
  The inner loop \<^verbatim>\<open>for j, part in enumerate(parts)\<close>, with \<open>j\<close> the running counter
  and \<open>all_chunks\<close> the list appended to.
\<close>

fun chunk_parts :: "int \<Rightarrow> int \<Rightarrow> utext list \<Rightarrow> chunk list \<Rightarrow> chunk list" where
  "chunk_parts i j [] all_chunks = all_chunks"
| "chunk_parts i j (part # parts) all_chunks =
     (if py_strip part = [] then chunk_parts i (j + 1) parts all_chunks
      else chunk_parts i (j + 1) parts
             (all_chunks @ [\<lparr>page = i, idx = j, chunk_text = part\<rparr>]))"

text \<open>The outer loop \<^verbatim>\<open>for i, page_text in enumerate(pages, start=1)\<close>.\<close>

fun chunk_loop ::
  "(utext \<Rightarrow> utext list) \<Rightarrow> int \<Rightarrow> utext list \<Rightarrow> chunk list \<Rightarrow> chunk list" where
  "chunk_loop split_text i [] all_chunks = all_chunks"
| "chunk_loop split_text i (page_text # pages) all_chunks =
     (if page_text = [] then chunk_loop split_text (i + 1) pages all_chunks
      else chunk_loop split_text (i + 1) pages
             (chunk_parts i 0 (split_text page_text) all_chunks))"

definition chunk_pages :: "env \<Rightarrow> utext list \<Rightarrow> int \<Rightarrow> int \<Rightarrow> error + chunk list" where
  "chunk_pages e pages chunk_size chunk_overlap =
     (case RecursiveCharacterTextSplitter e chunk_size chunk_overlap of
        Inl err \<Rightarrow> Inl err
      | Inr split_text \<Rightarrow> Inr (chunk_loop split_text 1 pages []))"

section \<open>The graph store\<close>

text \<open>
  The store holds \<^verbatim>\<open>Document\<close> nodes, \<^verbatim>\<open>Chunk\<close> nodes and \<^verbatim>\<open>HAS_CHUNK\<close>
  relationships between node identifiers. Nodes are kept in lists, so that the store
  could hold two nodes with one key: no uniqueness constraint is declared by the source.
  A property that is absent reads as \<open>JNull\<close> (\<open>None\<close> for a chunk's content).
\<close>

record document =
  doc_id :: nat
  path :: json
  title :: json
  file_name :: json
  page_count :: json
  mime_type :: json

record chunk_node =
  chunk_id :: nat
  doc_path :: json
  node_page :: int
  node_idx :: int
  content :: "utext option"

record graph =
  documents :: "document list"
  chunks :: "chunk_node list"
  has_chunk :: "(nat \<times> nat) list"
  next_id :: nat

text \<open>The named parameters that both queries of the source share.\<close>

record params =
  param_path :: json
  param_title :: json
  param_file_name :: json
  param_page_count :: int
  param_mime_type :: json

text \<open>
  The two statements that the source sends: \<open>Register\<close> is the two-line
  \<^verbatim>\<open>MERGE ... SET\<close> of the branch without chunks, \<open>Upsert\<close> the seven-line statement
  with \<^verbatim>\<open>UNWIND $chunks\<close>.
\<close>

datatype query = Register params | Upsert params "chunk list"

text \<open>\<^verbatim>\<open>MERGE (d:Document {path: $path})\<close>: create the node unless one matches.\<close>

definition merge_document :: "json \<Rightarrow> graph \<Rightarrow> graph" where
  "merge_document p g =
     (if \<exists>d \<in> set (documents g). path d = p then g
      else g\<lparr>documents := documents g @
                [\<lparr>doc_id = next_id g, path = p, title = JNull, file_name = JNull,
                  page_count = JNull, mime_type = JNull\<rparr>],
              next_id := Suc (next_id g)\<rparr>)"

text \<open>
  \<^verbatim>\<open>SET d.title = $title, d.file_name = $file_name, d.page_count = $page_count,
  d.mime_type = $mime_type\<close>, for every node that \<open>d\<close> is bound to: the nodes that carry
  the merge key.
\<close>

definition set_document :: "params \<Rightarrow> graph \<Rightarrow> graph" where
  "set_document ps g =
     g\<lparr>documents :=
         map (\<lambda>d. if path d = param_path ps
                   then d\<lparr>title := param_title ps, file_name := param_file_name ps,
                          page_count := JInt (param_page_count ps),
                          mime_type := param_mime_type ps\<rparr>
                   else d)
             (documents g)\<rparr>"

text \<open>
  \<^verbatim>\<open>WITH d UNWIND $chunks AS chunk\<close>: one row for every bound document node and every
  chunk of the parameter.
\<close>

definition unwind_rows :: "json \<Rightarrow> chunk list \<Rightarrow> graph \<Rightarrow> (nat \<times> chunk) list" where
  "unwind_rows p cks g =
     concat (map (\<lambda>d. map (\<lambda>ck. (doc_id d, ck)) cks)
                 (filter (\<lambda>d. path d = p) (documents g)))"

definition chunk_matches :: "json \<Rightarrow> chunk \<Rightarrow> chunk_node \<Rightarrow> bool" where
  "chunk_matches p ck c \<longleftrightarrow> doc_path c = p \<and> node_page c = page ck \<and> node_idx c = idx ck"

text \<open>\<^verbatim>\<open>MERGE (c:Chunk {doc_path: $path, page: chunk.page, idx: chunk.idx})\<close> for one row.\<close>

definition merge_chunk :: "json \<Rightarrow> chunk \<Rightarrow> graph \<Rightarrow> graph" where
  "merge_chunk p ck g =
     (if \<exists>c \<in> set (chunks g). chunk_matches p ck c then g
      else g\<lparr>chunks := chunks g @
                [\<lparr>chunk_id = next_id g, doc_path = p, node_page = page ck,
                  node_idx = idx ck, content = None\<rparr>],
              next_id := Suc (next_id g)\<rparr>)"

text \<open>\<^verbatim>\<open>SET c.content = chunk.text\<close> for one row.\<close>

definition set_content :: "json \<Rightarrow> chunk \<Rightarrow> graph \<Rightarrow> graph" where
  "set_content p ck g =
     g\<lparr>chunks := map (\<lambda>c. if chunk_matches p ck c then c\<lparr>content := Some (chunk_text ck)\<rparr>
                          else c)
                    (chunks g)\<rparr>"

text \<open>\<^verbatim>\<open>MERGE (d)-[:HAS_CHUNK]->(c)\<close> for one pair of bound nodes, and for one row.\<close>

definition merge_has_chunk :: "nat \<Rightarrow> nat \<Rightarrow> graph \<Rightarrow> graph" where
  "merge_has_chunk d c g =
     (if (d, c) \<in> set (has_chunk g) then g else g\<lparr>has_chunk := has_chunk g @ [(d, c)]\<rparr>)"

definition merge_has_chunk_row :: "json \<Rightarrow> nat \<times> chunk \<Rightarrow> graph \<Rightarrow> graph" where
  "merge_has_chunk_row p row g =
     fold (\<lambda>c. merge_has_chunk (fst row) (chunk_id c))
          (filter (chunk_matches p (snd row)) (chunks g)) g"

text \<open>
  \<^verbatim>\<open>graph.query(query, params)\<close>. A statement is evaluated clause by clause: each
  clause takes the graph and the rows bound so far and gives the next graph. A variable
  bound by \<^verbatim>\<open>MERGE\<close> on a key ranges over the nodes that carry the key, and no clause
  changes a key, so a later clause finds the bound nodes by their key. Failures of the
  connection and of the driver are not part of this model: a write succeeds.
\<close>

fun graph_query :: "query \<Rightarrow> graph \<Rightarrow> graph" where
  "graph_query (Register ps) g = set_document ps (merge_document (param_path ps) g)"
| "graph_query (Upsert ps cks) g =
     (let p = param_path ps;
          g2 = set_document ps (merge_document p g);
          rows = unwind_rows p cks g2;
          g3 = fold (\<lambda>row. merge_chunk p (snd row)) rows g2;
          g4 = fold (\<lambda>row. set_content p (snd row)) rows g3
      in fold (merge_has_chunk_row p) rows g4)"

section \<open>The batch ingestor (ingest/ingest\_pdfs\_to\_neo4j.py)\<close>

text \<open>Truth value of a manifest value, \<^verbatim>\<open>dict.get\<close> and the operator \<^verbatim>\<open>or\<close>.\<close>

fun truthy :: "json \<Rightarrow> bool" where
  "truthy JNull = False"
| "truthy (JBool b) = b"
| "truthy (JInt n) = (n \<noteq> 0)"
| "truthy (JStr s) = (s \<noteq> [])"
| "truthy (JArr xs) = (xs \<noteq> [])"
| "truthy (JObj kvs) = (kvs \<noteq> [])"

definition py_get :: "item \<Rightarrow> string \<Rightarrow> json" where
  "py_get item k = (case item k of None \<Rightarrow> JNull | Some v \<Rightarrow> v)"

definition py_or :: "json \<Rightarrow> json \<Rightarrow> json" where
  "py_or a b = (if truthy a then a else b)"

text \<open>The built-in \<^verbatim>\<open>int(v)\<close> and the source's \<^verbatim>\<open>_as_int\<close> around it.\<close>

definition py_int :: "env \<Rightarrow> json \<Rightarrow> error + int" where
  "py_int e v =
     (case v of
        JInt n \<Rightarrow> Inr n
      | JBool b \<Rightarrow> Inr (if b then 1 else 0)
      | JStr s \<Rightarrow> (case int_of_str e s of
                     Some n \<Rightarrow> Inr n
                   | None \<Rightarrow> Inl (LibraryError ''ValueError''))
      | _ \<Rightarrow> Inl (LibraryError ''TypeError''))"

definition as_int :: "env \<Rightarrow> json \<Rightarrow> int \<Rightarrow> int" where
  "as_int e v dflt = (case py_int e v of Inr n \<Rightarrow> n | Inl err \<Rightarrow> dflt)"

text \<open>
  What a run does to the outside, in order: the checks of the manifest path and of an
  entry's path with \<^verbatim>\<open>os.path.isfile\<close>, the reading of the manifest, the extraction of a
  file (with the check and the reading that it does itself), the statements sent to the store, the
  build of the vector index (embedding model and index name) and the final message
  (processed count and index name). The effect of the index build on the store, the
  embedding vectors, is not modelled.
\<close>

datatype event =
    IsFile json
  | JsonLoad string
  | Extract json
  | GraphQuery query
  | BuildIndex string string
  | Print int string

record world =
  store :: graph
  trace :: "event list"

definition log_event :: "event \<Rightarrow> world \<Rightarrow> world" where
  "log_event ev w = w\<lparr>trace := trace w @ [ev]\<rparr>"

definition run_query :: "query \<Rightarrow> world \<Rightarrow> world" where
  "run_query q w = w\<lparr>store := graph_query q (store w), trace := trace w @ [GraphQuery q]\<rparr>"

text \<open>Line 51 and lines 56 to 59: the descriptor's fields with their fallbacks.\<close>

definition item_path :: "item \<Rightarrow> json" where
  "item_path item = py_or (py_get item ''path'') (py_get item ''Path'')"

definition item_title :: "env \<Rightarrow> item \<Rightarrow> json \<Rightarrow> error + json" where
  "item_title e item pdf_path =
     (if truthy (py_get item ''title'') then Inr (py_get item ''title'')
      else if truthy (py_get item ''Title'') then Inr (py_get item ''Title'')
      else (case basename e pdf_path of Inl err \<Rightarrow> Inl err | Inr b \<Rightarrow> Inr (JStr b)))"

definition item_file_name :: "env \<Rightarrow> item \<Rightarrow> json \<Rightarrow> error + json" where
  "item_file_name e item pdf_path =
     (if truthy (py_get item ''FileName'') then Inr (py_get item ''FileName'')
      else (case basename e pdf_path of Inl err \<Rightarrow> Inl err | Inr b \<Rightarrow> Inr (JStr b)))"

definition item_mime_type :: "item \<Rightarrow> json" where
  "item_mime_type item =
     py_or (py_or (py_get item ''MIMEType'') (py_get item ''mime_type''))
           (JStr ''application/pdf'')"

definition item_page_count :: "env \<Rightarrow> item \<Rightarrow> int" where
  "item_page_count e item =
     as_int e (py_or (py_or (py_get item ''PageCount'') (py_get item ''pages'')) (JInt 0)) 0"

text \<open>
  Lines 61 to 102, for an entry whose path passed the check: extraction, chunking and
  the write. The result is the world after the write, or the exception that ends the run.
\<close>

definition ingest_file ::
  "env \<Rightarrow> int \<Rightarrow> int \<Rightarrow> json \<Rightarrow> json \<Rightarrow> json \<Rightarrow> json \<Rightarrow> int \<Rightarrow> world \<Rightarrow> world \<times> (error + unit)" where
  "ingest_file e chunk_size chunk_overlap pdf_path ttl fname mime pcount w =
     (let w1 = log_event (Extract pdf_path) w in
      case extract_pdf_text_by_page e pdf_path of
        Inl err \<Rightarrow> (w1, Inl err)
      | Inr pages \<Rightarrow>
          (case chunk_pages e pages chunk_size chunk_overlap of
             Inl err \<Rightarrow> (w1, Inl err)
           | Inr cks \<Rightarrow>
               if cks = [] then
                 (run_query (Register \<lparr>param_path = pdf_path, param_title = ttl,
                                        param_file_name = fname, param_page_count = pcount,
                                        param_mime_type = mime\<rparr>) w1, Inr ())
               else
                 (run_query (Upsert \<lparr>param_path = pdf_path, param_title = ttl,
                                      param_file_name = fname,
                                      param_page_count =
                                        (if pcount \<noteq> 0 then pcount else int (length pages)),
                                      param_mime_type = mime\<rparr> cks) w1, Inr ())))"

text \<open>
  Lines 51 to 102, the body of the loop for one entry after the limit check. The result
  \<open>Inr False\<close> is \<^verbatim>\<open>continue\<close> at line 54, \<open>Inr True\<close> is an entry that reached
  \<^verbatim>\<open>processed += 1\<close>.
\<close>

definition ingest_item ::
  "env \<Rightarrow> int \<Rightarrow> int \<Rightarrow> item \<Rightarrow> world \<Rightarrow> world \<times> (error + bool)" where
  "ingest_item e chunk_size chunk_overlap item w =
     (let pdf_path = item_path item in
      if \<not> truthy pdf_path then (w, Inr False)
      else
        (let w1 = log_event (IsFile pdf_path) w in
         case isfile e pdf_path of
           Inl err \<Rightarrow> (w1, Inl err)
         | Inr False \<Rightarrow> (w1, Inr False)
         | Inr True \<Rightarrow>
             (case item_title e item pdf_path of
                Inl err \<Rightarrow> (w1, Inl err)
              | Inr ttl \<Rightarrow>
                  (case item_file_name e item pdf_path of
                     Inl err \<Rightarrow> (w1, Inl err)
                   | Inr fname \<Rightarrow>
                       (case ingest_file e chunk_size chunk_overlap pdf_path ttl fname
                               (item_mime_type item) (item_page_count e item) w1 of
                          (w2, Inl err) \<Rightarrow> (w2, Inl err)
                        | (w2, Inr u) \<Rightarrow> (w2, Inr True))))))"

text \<open>The loop of lines 47 to 102 with its counter \<open>processed\<close>.\<close>

fun ingest_loop ::
  "env \<Rightarrow> int \<Rightarrow> int \<Rightarrow> int option \<Rightarrow> item list \<Rightarrow> int \<Rightarrow> world \<Rightarrow> world \<times> (error + int)" where
  "ingest_loop e chunk_size chunk_overlap limit [] processed w = (w, Inr processed)"
| "ingest_loop e chunk_size chunk_overlap limit (item # items) processed w =
     (if (case limit of None \<Rightarrow> False | Some l \<Rightarrow> processed \<ge> l) then (w, Inr processed)
      else
        (case ingest_item e chunk_size chunk_overlap item w of
           (w', Inl err) \<Rightarrow> (w', Inl err)
         | (w', Inr counted) \<Rightarrow>
             ingest_loop e chunk_size chunk_overlap limit items
               (if counted then processed + 1 else processed) w'))"

text \<open>
  The whole function. The connection parameters only reach the constructors of the
  store and of the index and are left out.
\<close>

definition ingest_from_json ::
  "env \<Rightarrow> string \<Rightarrow> string \<Rightarrow> string \<Rightarrow> int \<Rightarrow> int \<Rightarrow> int option \<Rightarrow> world
     \<Rightarrow> world \<times> (error + unit)" where
  "ingest_from_json e json_path index_name embedding_model chunk_size chunk_overlap limit w =
     (let w0 = log_event (IsFile (JStr json_path)) w in
      case isfile e (JStr json_path) of
        Inl err \<Rightarrow> (w0, Inl err)
      | Inr False \<Rightarrow> (w0, Inl (FileNotFoundError json_path))
      | Inr True \<Rightarrow>
          (let w1 = log_event (JsonLoad json_path) w0 in
           case json_load e json_path of
             Inl err \<Rightarrow> (w1, Inl err)
           | Inr items \<Rightarrow>
               (case ingest_loop e chunk_size chunk_overlap limit items 0 w1 of
                  (w2, Inl err) \<Rightarrow> (w2, Inl err)
                | (w2, Inr processed) \<Rightarrow>
                    (log_event (Print processed index_name)
                       (log_event (BuildIndex embedding_model index_name) w2), Inr ()))))"

section \<open>Notions used in the statements and proofs\<close>

text \<open>
  The chunks that the inner loop owes for the parts of one page, numbered from \<open>j\<close>: one
  for every raw position whose part survives \<^verbatim>\<open>strip\<close>. \<open>page_chunks\<close> adds the
  outer loop's test for an empty page.
\<close>

definition raw_chunks :: "int \<Rightarrow> int \<Rightarrow> utext list \<Rightarrow> chunk set" where
  "raw_chunks i j parts =
     {\<lparr>page = i, idx = j + int k, chunk_text = parts ! k\<rparr> | k.
        k < length parts \<and> py_strip (parts ! k) \<noteq> []}"

definition page_chunks :: "(utext \<Rightarrow> utext list) \<Rightarrow> int \<Rightarrow> utext \<Rightarrow> chunk set" where
  "page_chunks split_text i page_text =
     (if page_text = [] then {} else raw_chunks i 0 (split_text page_text))"

text \<open>The order of the output: by page, then by index.\<close>

definition chunk_before :: "chunk \<Rightarrow> chunk \<Rightarrow> bool" where
  "chunk_before a b \<longleftrightarrow> page a < page b \<or> (page a = page b \<and> idx a < idx b)"

text \<open>The merge key of a chunk node.\<close>

definition chunk_key :: "chunk_node \<Rightarrow> json \<times> int \<times> int" where
  "chunk_key c = (doc_path c, node_page c, node_idx c)"

text \<open>
  What \<^verbatim>\<open>SET c.content = chunk.text\<close> does to one node, for one row and for all rows of
  the statement in turn.
\<close>

definition set_content_node :: "json \<Rightarrow> chunk \<Rightarrow> chunk_node \<Rightarrow> chunk_node" where
  "set_content_node p ck c =
     (if chunk_matches p ck c then c\<lparr>content := Some (chunk_text ck)\<rparr> else c)"

definition set_content_rows :: "json \<Rightarrow> ('a \<times> chunk) list \<Rightarrow> chunk_node \<Rightarrow> chunk_node" where
  "set_content_rows p rows c = fold (\<lambda>row. set_content_node p (snd row)) rows c"

text \<open>No upsert among the events carries a chunk whose text is blank.\<close>

definition upserts_nonblank :: "event list \<Rightarrow> bool" where
  "upserts_nonblank evs \<longleftrightarrow>
     (\<forall>ps cks. GraphQuery (Upsert ps cks) \<in> set evs \<longrightarrow>
        (\<forall>c \<in> set cks. py_strip (chunk_text c) \<noteq> []))"

section \<open>A concrete environment\<close>

text \<open>
  A small file system for the closed instances below: a manifest of five entries, one
  file with text on two of its three pages (the middle page fails to extract), four
  files without any text, and a splitter that cuts a page into single characters.
\<close>

definition char_split :: "utext \<Rightarrow> utext list" where
  "char_split t = map (\<lambda>c. [c]) t"

definition demo_manifest :: "item list" where
  "demo_manifest =
     [[''path'' \<mapsto> JStr ''a.pdf''], [''path'' \<mapsto> JStr ''b.pdf''],
      [''path'' \<mapsto> JStr ''c.pdf''], [''path'' \<mapsto> JStr ''d.pdf''],
      [''path'' \<mapsto> JStr ''e.pdf'']]"

definition demo_env :: env where
  "demo_env =
     \<lparr>isfile = (\<lambda>v. Inr (v \<in> {JStr ''m.json'', JStr ''a.pdf'', JStr ''b.pdf'', JStr ''c.pdf'',
                                JStr ''d.pdf'', JStr ''e.pdf''})),
      basename = (\<lambda>v. case v of JStr s \<Rightarrow> Inr s | _ \<Rightarrow> Inl (LibraryError ''TypeError'')),
      json_load = (\<lambda>p. Inr demo_manifest),
      PdfReader = (\<lambda>v. if v = JStr ''a.pdf''
                        then Inr [ExtractReturns (Some [97, 32, 98]), ExtractRaises,
                                  ExtractReturns (Some [99])]
                        else Inr [ExtractReturns None, ExtractRaises, ExtractReturns (Some [32])]),
      int_of_str = (\<lambda>s. None),
      RecursiveCharacterTextSplitter = (\<lambda>chunk_size chunk_overlap. Inr char_split)\<rparr>"

definition empty_graph :: graph where
  "empty_graph = \<lparr>documents = [], chunks = [], has_chunk = [], next_id = 0\<rparr>"

definition empty_world :: world where
  "empty_world = \<lparr>store = empty_graph, trace = []\<rparr>"

definition demo_upsert :: query where
  "demo_upsert =
     Upsert \<lparr>param_path = JStr ''a.pdf'', param_title = JStr ''a.pdf'',
              param_file_name = JStr ''a.pdf'', param_page_count = 3,
              param_mime_type = JStr ''application/pdf''\<rparr>
        [\<lparr>page = 1, idx = 0, chunk_text = [97]\<rparr>, \<lparr>page = 1, idx = 2, chunk_text = [98]\<rparr>]"

section \<open>The page extractor and the text chunker\<close>

subsection \<open>What the two loops of the chunker append\<close>

lemma raw_chunks_Nil: "raw_chunks i j [] = {}"
  by (simp add: raw_chunks_def)

lemma raw_chunks_Cons:
  "raw_chunks i j (part # parts) =
     (if py_strip part = [] then {} else {\<lparr>page = i, idx = j, chunk_text = part\<rparr>})
     \<union> raw_chunks i (j + 1) parts"
proof -
  have "\<And>c. c \<in> raw_chunks i j (part # parts) \<longleftrightarrow>
          c \<in> (if py_strip part = [] then {} else {\<lparr>page = i, idx = j, chunk_text = part\<rparr>})
              \<union> raw_chunks i (j + 1) parts"
  proof
    fix c assume "c \<in> raw_chunks i j (part # parts)"
    then obtain k where k: "k < Suc (length parts)" "py_strip ((part # parts) ! k) \<noteq> []"
      "c = \<lparr>page = i, idx = j + int k, chunk_text = (part # parts) ! k\<rparr>"
      by (auto simp: raw_chunks_def)
    show "c \<in> (if py_strip part = [] then {} else {\<lparr>page = i, idx = j, chunk_text = part\<rparr>})
              \<union> raw_chunks i (j + 1) parts"
    proof (cases k)
      case 0
      with k show ?thesis by simp
    next
      case (Suc m)
      with k have "m < length parts" "py_strip (parts ! m) \<noteq> []"
        "c = \<lparr>page = i, idx = (j + 1) + int m, chunk_text = parts ! m\<rparr>"
        by simp_all
      then have "c \<in> raw_chunks i (j + 1) parts"
        unfolding raw_chunks_def by blast
      then show ?thesis by simp
    qed
  next
    fix c assume "c \<in> (if py_strip part = [] then {} else {\<lparr>page = i, idx = j, chunk_text = part\<rparr>})
              \<union> raw_chunks i (j + 1) parts"
    then consider (a) "py_strip part \<noteq> []" "c = \<lparr>page = i, idx = j, chunk_text = part\<rparr>"
      | (b) "c \<in> raw_chunks i (j + 1) parts"
      by (auto split: if_splits)
    then show "c \<in> raw_chunks i j (part # parts)"
    proof cases
      case a
      then have "0 < Suc (length parts) \<and> py_strip ((part # parts) ! 0) \<noteq> [] \<and>
        c = \<lparr>page = i, idx = j + int 0, chunk_text = (part # parts) ! 0\<rparr>" by simp
      then show ?thesis unfolding raw_chunks_def by (metis (mono_tags, lifting) length_Cons mem_Collect_eq)
    next
      case b
      then obtain m where m: "m < length parts" "py_strip (parts ! m) \<noteq> []"
        "c = \<lparr>page = i, idx = (j + 1) + int m, chunk_text = parts ! m\<rparr>"
        by (auto simp: raw_chunks_def)
      then have "Suc m < length (part # parts) \<and> py_strip ((part # parts) ! Suc m) \<noteq> [] \<and>
        c = \<lparr>page = i, idx = j + int (Suc m), chunk_text = (part # parts) ! Suc m\<rparr>" by simp
      then show ?thesis unfolding raw_chunks_def by blast
    qed
  qed
  then show ?thesis by blast
qed

lemma set_chunk_parts:
  "set (chunk_parts i j parts acc) = set acc \<union> raw_chunks i j parts"
  by (induction parts arbitrary: j acc) (auto simp: raw_chunks_Nil raw_chunks_Cons)

lemma raw_chunks_page: "c \<in> raw_chunks i j parts \<Longrightarrow> page c = i \<and> j \<le> idx c"
  by (auto simp: raw_chunks_def)

lemma UN_lessThan_Suc_shift:
  "(\<Union>n<Suc m. f n) = f 0 \<union> (\<Union>n<m. f (Suc n))"
  by (simp add: lessThan_Suc_eq_insert_0 image_image del: lessThan_Suc)

lemma set_chunk_loop:
  "set (chunk_loop split_text i pages acc) =
     set acc \<union> (\<Union>n<length pages. page_chunks split_text (i + int n) (pages ! n))"
proof (induction pages arbitrary: i acc)
  case Nil
  then show ?case by simp
next
  case (Cons page_text pages)
  have step: "set (chunk_loop split_text i (page_text # pages) acc) =
      set acc \<union> page_chunks split_text i page_text \<union>
      (\<Union>n<length pages. page_chunks split_text (i + 1 + int n) (pages ! n))"
    by (simp add: Cons.IH set_chunk_parts page_chunks_def)
  have "(\<Union>n<length (page_text # pages).
            page_chunks split_text (i + int n) ((page_text # pages) ! n)) =
        page_chunks split_text i page_text \<union>
        (\<Union>n<length pages. page_chunks split_text (i + 1 + int n) (pages ! n))"
  proof -
    have sh: "\<And>n. i + int (Suc n) = i + 1 + int n" by simp
    show ?thesis
      by (simp add: UN_lessThan_Suc_shift sh del: lessThan_Suc of_nat_Suc)
  qed
  with step show ?case by (simp only: Un_assoc)
qed

lemma sorted_chunk_parts:
  "sorted_wrt chunk_before acc \<Longrightarrow>
   \<forall>c \<in> set acc. page c < i \<or> (page c = i \<and> idx c < j) \<Longrightarrow>
   sorted_wrt chunk_before (chunk_parts i j parts acc)"
proof (induction parts arbitrary: j acc)
  case Nil
  then show ?case by simp
next
  case (Cons part parts)
  show ?case
  proof (cases "py_strip part = []")
    case True
    have "\<forall>c \<in> set acc. page c < i \<or> (page c = i \<and> idx c < j + 1)"
      using Cons.prems(2) by force
    with Cons.IH [OF Cons.prems(1)] True show ?thesis by simp
  next
    case False
    let ?acc = "acc @ [\<lparr>page = i, idx = j, chunk_text = part\<rparr>]"
    have s: "sorted_wrt chunk_before ?acc"
      using Cons.prems by (simp add: sorted_wrt_append) (auto simp: chunk_before_def)
    have b: "\<forall>c \<in> set ?acc. page c < i \<or> (page c = i \<and> idx c < j + 1)"
      using Cons.prems(2) by force
    from Cons.IH [OF s b] False show ?thesis by simp
  qed
qed

lemma sorted_chunk_loop:
  "sorted_wrt chunk_before acc \<Longrightarrow> \<forall>c \<in> set acc. page c < i \<Longrightarrow>
   sorted_wrt chunk_before (chunk_loop split_text i pages acc)"
proof (induction pages arbitrary: i acc)
  case Nil
  then show ?case by simp
next
  case (Cons page_text pages)
  show ?case
  proof (cases "page_text = []")
    case True
    have "\<forall>c \<in> set acc. page c < i + 1" using Cons.prems(2) by force
    with Cons.IH [OF Cons.prems(1)] True show ?thesis by simp
  next
    case False
    let ?acc = "chunk_parts i 0 (split_text page_text) acc"
    have s: "sorted_wrt chunk_before ?acc"
      by (rule sorted_chunk_parts [OF Cons.prems(1)]) (use Cons.prems(2) in auto)
    have b: "\<forall>c \<in> set ?acc. page c < i + 1"
      using Cons.prems(2) by (auto simp: set_chunk_parts dest: raw_chunks_page)
    from Cons.IH [OF s b] False show ?thesis by simp
  qed
qed

lemma chunk_mem_iff:
  "c \<in> set (chunk_loop split_text 1 pages []) \<longleftrightarrow>
     (\<exists>n k. n < length pages \<and> pages ! n \<noteq> [] \<and> k < length (split_text (pages ! n)) \<and>
            py_strip (split_text (pages ! n) ! k) \<noteq> [] \<and>
            c = \<lparr>page = 1 + int n, idx = int k, chunk_text = split_text (pages ! n) ! k\<rparr>)"
  by (auto simp: set_chunk_loop page_chunks_def raw_chunks_def split: if_splits)

subsection \<open>Extraction, white space and order\<close>

lemma extract_loop_map: "extract_loop pgs pages = pages @ map page_txt pgs"
  by (induction pgs arbitrary: pages) simp_all

lemma dropWhile_all: "(\<forall>x \<in> set (dropWhile P s). P x) \<longleftrightarrow> (\<forall>x \<in> set s. P x)"
  by (induction s) auto

lemma py_strip_empty_iff: "py_strip s = [] \<longleftrightarrow> (\<forall>c \<in> set s. py_isspace c)"
  by (simp add: py_strip_def dropWhile_eq_Nil_conv dropWhile_all)

lemma chunk_loop_sorted: "sorted_wrt chunk_before (chunk_loop split_text 1 pages [])"
  by (rule sorted_chunk_loop) simp_all

subsection \<open>Per-page recovery of the extractor\<close>

text \<open>
  C8. For a file that exists and that the PDF reader opens, \<open>extract_pdf_text_by_page\<close>
  returns a list with one entry per page of the reader, whatever the pages do: a page
  whose text extraction raises is recorded as the empty string, a page that yields a
  string keeps it, and the pages after a failing one are still extracted.
\<close>

theorem extract_recovers_per_page:
  assumes "isfile e p = Inr True" and "PdfReader e p = Inr reader_pages"
  shows "\<exists>pages. extract_pdf_text_by_page e p = Inr pages \<and>
           length pages = length reader_pages \<and>
           (\<forall>n < length reader_pages.
              (reader_pages ! n = ExtractRaises \<longrightarrow> pages ! n = []) \<and>
              (\<forall>t. reader_pages ! n = ExtractReturns (Some t) \<longrightarrow> pages ! n = t))"
  using assms by (auto simp: extract_pdf_text_by_page_def extract_loop_map)

theorem extract_recovers_per_page_witness:
  "isfile demo_env (JStr ''a.pdf'') = Inr True \<and>
   PdfReader demo_env (JStr ''a.pdf'') =
     Inr [ExtractReturns (Some [97, 32, 98]), ExtractRaises, ExtractReturns (Some [99])] \<and>
   (\<exists>pages. extract_pdf_text_by_page demo_env (JStr ''a.pdf'') = Inr pages \<and>
            length pages = 3 \<and> pages ! 0 = [97, 32, 98] \<and> pages ! 1 = [] \<and> pages ! 2 = [99])"
proof -
  have f: "isfile demo_env (JStr ''a.pdf'') = Inr True"
    by (simp add: demo_env_def)
  have r: "PdfReader demo_env (JStr ''a.pdf'') =
      Inr [ExtractReturns (Some [97, 32, 98]), ExtractRaises, ExtractReturns (Some [99])]"
    by (simp add: demo_env_def)
  from extract_recovers_per_page [OF f r]
  obtain pages where p: "extract_pdf_text_by_page demo_env (JStr ''a.pdf'') = Inr pages"
    "length pages = 3"
    "\<forall>n < 3. ([ExtractReturns (Some [97, 32, 98]), ExtractRaises, ExtractReturns (Some [99])] ! n
                = ExtractRaises \<longrightarrow> pages ! n = []) \<and>
            (\<forall>t. [ExtractReturns (Some [97, 32, 98]), ExtractRaises, ExtractReturns (Some [99])] ! n
                = ExtractReturns (Some t) \<longrightarrow> pages ! n = t)"
    by auto
  from p(3) have "pages ! 0 = [97, 32, 98]" by simp
  moreover from p(3) have "pages ! 1 = []" by simp
  moreover from p(3) have "pages ! 2 = [99]" by simp
  ultimately show ?thesis using f r p(1,2) by blast
qed

subsection \<open>Chunk indices\<close>

text \<open>
  C6. When the splitter can be built, \<open>chunk_pages\<close> returns, and every chunk it returns
  sits at a page \<open>1 + n\<close> and carries as \<open>idx\<close> the 0-based position \<open>k\<close> of its text in the
  raw output of the splitter for that page. Conversely every raw part of a non-empty page
  that is not blank is returned under exactly its raw position, so parts that are dropped
  keep their slot and nothing is renumbered. No two chunks share a pair of page and index:
  page and index determine the text.
\<close>

theorem chunk_pages_idx_raw_position:
  assumes "RecursiveCharacterTextSplitter e chunk_size chunk_overlap = Inr split_text"
  shows "\<exists>cks. chunk_pages e pages chunk_size chunk_overlap = Inr cks \<and>
           (\<forall>c \<in> set cks. \<exists>n k. n < length pages \<and> k < length (split_text (pages ! n)) \<and>
                page c = 1 + int n \<and> idx c = int k \<and>
                chunk_text c = split_text (pages ! n) ! k) \<and>
           (\<forall>n < length pages. \<forall>k < length (split_text (pages ! n)).
                pages ! n \<noteq> [] \<and> py_strip (split_text (pages ! n) ! k) \<noteq> [] \<longrightarrow>
                \<lparr>page = 1 + int n, idx = int k, chunk_text = split_text (pages ! n) ! k\<rparr>
                  \<in> set cks) \<and>
           distinct (map (\<lambda>c. (page c, idx c)) cks)"
proof -
  let ?cks = "chunk_loop split_text 1 pages []"
  have r: "chunk_pages e pages chunk_size chunk_overlap = Inr ?cks"
    using assms by (simp add: chunk_pages_def)
  have a: "\<forall>c \<in> set ?cks. \<exists>n k. n < length pages \<and> k < length (split_text (pages ! n)) \<and>
                page c = 1 + int n \<and> idx c = int k \<and>
                chunk_text c = split_text (pages ! n) ! k"
    by (auto simp: chunk_mem_iff)
  have b: "\<forall>n < length pages. \<forall>k < length (split_text (pages ! n)).
                pages ! n \<noteq> [] \<and> py_strip (split_text (pages ! n) ! k) \<noteq> [] \<longrightarrow>
                \<lparr>page = 1 + int n, idx = int k, chunk_text = split_text (pages ! n) ! k\<rparr>
                  \<in> set ?cks"
    unfolding chunk_mem_iff by blast
  have "sorted_wrt (\<lambda>x y. x \<noteq> y) (map (\<lambda>c. (page c, idx c)) ?cks)"
    unfolding sorted_wrt_map
    by (rule sorted_wrt_mono_rel [OF _ chunk_loop_sorted]) (auto simp: chunk_before_def)
  then have d: "distinct (map (\<lambda>c. (page c, idx c)) ?cks)"
    by (simp add: distinct_conv_nth sorted_wrt_iff_nth_less) (metis nat_neq_iff)
  from r a b d show ?thesis by blast
qed

theorem chunk_pages_idx_raw_position_witness:
  "RecursiveCharacterTextSplitter demo_env 1000 200 = Inr char_split \<and>
   (\<exists>cks. chunk_pages demo_env [[97, 32, 98], [], [99]] 1000 200 = Inr cks \<and>
          \<lparr>page = 1, idx = 2, chunk_text = [98]\<rparr> \<in> set cks \<and>
          distinct (map (\<lambda>c. (page c, idx c)) cks))"
proof -
  let ?P = "[[97, 32, 98], [], [99::nat]]"
  have h: "RecursiveCharacterTextSplitter demo_env 1000 200 = Inr char_split"
    by (simp add: demo_env_def)
  from chunk_pages_idx_raw_position [OF h, of ?P]
  obtain cks where r: "chunk_pages demo_env ?P 1000 200 = Inr cks"
    and c: "\<forall>n < length ?P. \<forall>k < length (char_split (?P ! n)).
                ?P ! n \<noteq> [] \<and> py_strip (char_split (?P ! n) ! k) \<noteq> [] \<longrightarrow>
                \<lparr>page = 1 + int n, idx = int k, chunk_text = char_split (?P ! n) ! k\<rparr>
                  \<in> set cks"
    and d: "distinct (map (\<lambda>c. (page c, idx c)) cks)"
    by (elim exE conjE)
  have "\<lparr>page = 1 + int 0, idx = int 2, chunk_text = char_split (?P ! 0) ! 2\<rparr> \<in> set cks"
    by (rule c [rule_format, of 0 2])
       (simp_all add: char_split_def py_strip_def py_isspace_def)
  then have "\<lparr>page = 1, idx = 2, chunk_text = [98]\<rparr> \<in> set cks"
    by (simp add: char_split_def)
  with h r d show ?thesis by blast
qed

subsection \<open>Order of the output\<close>

text \<open>
  C10. The list that \<open>chunk_pages\<close> returns is ordered: its page numbers never decrease
  along the list and are at least 1, every index is at least 0, and of two chunks of one
  page the later one has the strictly larger index.
\<close>

theorem chunk_pages_ordered:
  assumes "chunk_pages e pages chunk_size chunk_overlap = Inr cks"
  shows "sorted (map page cks) \<and>
         (\<forall>c \<in> set cks. 1 \<le> page c \<and> 0 \<le> idx c) \<and>
         (\<forall>a b. a < b \<and> b < length cks \<and> page (cks ! a) = page (cks ! b) \<longrightarrow>
                idx (cks ! a) < idx (cks ! b))"
proof -
  obtain split_text where cks: "cks = chunk_loop split_text 1 pages []"
    using assms by (auto simp: chunk_pages_def split: sum.splits)
  have s: "sorted_wrt chunk_before cks"
    unfolding cks by (rule chunk_loop_sorted)
  have "sorted_wrt (\<lambda>a b. page a \<le> page b) cks"
    by (rule sorted_wrt_mono_rel [OF _ s]) (auto simp: chunk_before_def)
  then have 1: "sorted (map page cks)"
    by (simp add: sorted_map)
  have 2: "\<forall>c \<in> set cks. 1 \<le> page c \<and> 0 \<le> idx c"
    by (auto simp: cks chunk_mem_iff)
  have 3: "\<forall>a b. a < b \<and> b < length cks \<and> page (cks ! a) = page (cks ! b) \<longrightarrow>
                idx (cks ! a) < idx (cks ! b)"
  proof (intro allI impI)
    fix a b
    assume ab: "a < b \<and> b < length cks \<and> page (cks ! a) = page (cks ! b)"
    with s have "chunk_before (cks ! a) (cks ! b)"
      by (simp add: sorted_wrt_iff_nth_less)
    with ab show "idx (cks ! a) < idx (cks ! b)"
      by (simp add: chunk_before_def)
  qed
  from 1 2 3 show ?thesis by blast
qed

theorem chunk_pages_ordered_witness:
  "chunk_pages demo_env [[97, 32, 98], [], [99]] 1000 200 =
     Inr [\<lparr>page = 1, idx = 0, chunk_text = [97]\<rparr>, \<lparr>page = 1, idx = 2, chunk_text = [98]\<rparr>,
          \<lparr>page = 3, idx = 0, chunk_text = [99]\<rparr>] \<and>
   sorted (map page [\<lparr>page = 1, idx = 0, chunk_text = [97]\<rparr>,
                     \<lparr>page = 1, idx = 2, chunk_text = [98]\<rparr>,
                     \<lparr>page = 3, idx = 0, chunk_text = [99]\<rparr>])"
proof -
  have h: "chunk_pages demo_env [[97, 32, 98], [], [99]] 1000 200 =
     Inr [\<lparr>page = 1, idx = 0, chunk_text = [97]\<rparr>, \<lparr>page = 1, idx = 2, chunk_text = [98]\<rparr>,
          \<lparr>page = 3, idx = 0, chunk_text = [99]\<rparr>]"
    by (simp add: chunk_pages_def demo_env_def char_split_def py_strip_def py_isspace_def)
  from chunk_pages_ordered [OF h] h show ?thesis by blast
qed

section \<open>The batch ingestor\<close>

subsection \<open>Evaluation of closed instances\<close>

lemmas ingest_defs =
  ingest_item_def item_path_def py_get_def py_or_def item_title_def item_file_name_def
  item_mime_type_def item_page_count_def as_int_def py_int_def ingest_file_def
  extract_pdf_text_by_page_def chunk_pages_def run_query_def log_event_def Let_def

lemmas store_defs =
  merge_document_def set_document_def unwind_rows_def merge_chunk_def chunk_matches_def
  set_content_def merge_has_chunk_row_def merge_has_chunk_def

lemmas demo_defs =
  demo_env_def demo_manifest_def char_split_def py_strip_def py_isspace_def
  empty_world_def empty_graph_def

subsection \<open>Whether an entry counts does not depend on the store\<close>

lemma ingest_file_status_indep:
  "snd (ingest_file e cs co p t f m pc w) = snd (ingest_file e cs co p t f m pc w0)"
  by (simp add: ingest_file_def Let_def split: sum.splits)

lemma ingest_item_status_indep:
  "snd (ingest_item e cs co item w) = snd (ingest_item e cs co item w0)"
proof -
  have c: "\<And>x. snd (case x of (w2, Inl err) \<Rightarrow> (w2, Inl err) | (w2, Inr (u::unit)) \<Rightarrow> (w2, Inr True)) =
          (case snd x of Inl err \<Rightarrow> Inl err | Inr u \<Rightarrow> Inr True)"
    by (simp split: prod.splits sum.splits)
  show ?thesis
  proof (cases "truthy (item_path item)")
    case False
    then show ?thesis by (simp add: ingest_item_def)
  next
    case True
    show ?thesis
    proof (cases "isfile e (item_path item)")
      case (Inl err)
      with True show ?thesis by (simp add: ingest_item_def Let_def)
    next
      case (Inr b)
      show ?thesis
      proof (cases b)
        case False
        with True Inr show ?thesis by (simp add: ingest_item_def Let_def)
      next
        case b: True
        show ?thesis
        proof (cases "item_title e item (item_path item)")
          case (Inl err)
          with True Inr b show ?thesis by (simp add: ingest_item_def Let_def)
        next
          case t: (Inr ttl)
          show ?thesis
          proof (cases "item_file_name e item (item_path item)")
            case (Inl err)
            with True Inr b t show ?thesis by (simp add: ingest_item_def Let_def)
          next
            case f: (Inr fname)
            have "snd (ingest_file e cs co (item_path item) ttl fname (item_mime_type item)
                         (item_page_count e item) (log_event (IsFile (item_path item)) w)) =
                  snd (ingest_file e cs co (item_path item) ttl fname (item_mime_type item)
                         (item_page_count e item) (log_event (IsFile (item_path item)) w0))"
              by (rule ingest_file_status_indep)
            with True Inr b t f show ?thesis
              by (simp add: ingest_item_def Let_def c)
          qed
        qed
      qed
    qed
  qed
qed

subsection \<open>Entries without a valid path\<close>

lemma ingest_item_skip:
  assumes "\<not> truthy (item_path item) \<or> isfile e (item_path item) = Inr False"
  shows "ingest_item e cs co item w =
           (if truthy (item_path item) then log_event (IsFile (item_path item)) w else w, Inr False)"
  using assms by (auto simp: ingest_item_def Let_def)

text \<open>
  C4. An entry whose path (the value under \<^verbatim>\<open>path\<close>, else under \<^verbatim>\<open>Path\<close>) is missing or
  falsy, or for which \<^verbatim>\<open>os.path.isfile\<close> answers no, is skipped: the loop body ends
  without an error and without counting the entry, the store is unchanged, the only
  thing done is the path check itself (and not even that for a falsy path), and the loop
  goes on with the next entry and the same counter.
\<close>

theorem skip_entry_without_valid_path:
  assumes "\<not> truthy (item_path item) \<or> isfile e (item_path item) = Inr False"
  shows "\<exists>w'. ingest_item e chunk_size chunk_overlap item w = (w', Inr False) \<and>
           store w' = store w \<and>
           trace w' = trace w @ (if truthy (item_path item) then [IsFile (item_path item)] else []) \<and>
           ingest_loop e chunk_size chunk_overlap None (item # items) processed w =
             ingest_loop e chunk_size chunk_overlap None items processed w' \<and>
           (\<forall>l. processed < l \<longrightarrow>
              ingest_loop e chunk_size chunk_overlap (Some l) (item # items) processed w =
                ingest_loop e chunk_size chunk_overlap (Some l) items processed w')"
  by (simp add: ingest_item_skip [OF assms] log_event_def)

theorem skip_entry_without_valid_path_witness:
  "isfile demo_env (item_path [''path'' \<mapsto> JStr ''missing.pdf'']) = Inr False \<and>
   (\<exists>w'. ingest_item demo_env 1000 200 [''path'' \<mapsto> JStr ''missing.pdf''] empty_world =
            (w', Inr False) \<and>
          store w' = empty_graph \<and> trace w' = [IsFile (JStr ''missing.pdf'')])"
proof -
  have h: "isfile demo_env (item_path [''path'' \<mapsto> JStr ''missing.pdf'']) = Inr False"
    by (simp add: demo_env_def item_path_def py_get_def py_or_def)
  have t: "truthy (item_path [''path'' \<mapsto> JStr ''missing.pdf''])"
    by (simp add: item_path_def py_get_def py_or_def)
  have p: "item_path [''path'' \<mapsto> JStr ''missing.pdf''] = JStr ''missing.pdf''"
    by (simp add: item_path_def py_get_def py_or_def)
  from skip_entry_without_valid_path [OF disjI2 [OF h], of 1000 200 empty_world "[]" 0]
  obtain w' where
    "ingest_item demo_env 1000 200 [''path'' \<mapsto> JStr ''missing.pdf''] empty_world =
       (w', Inr False)"
    "store w' = store empty_world"
    "trace w' = trace empty_world @
       (if truthy (item_path [''path'' \<mapsto> JStr ''missing.pdf''])
        then [IsFile (item_path [''path'' \<mapsto> JStr ''missing.pdf''])] else [])"
    by (elim exE conjE)
  with t p have "ingest_item demo_env 1000 200 [''path'' \<mapsto> JStr ''missing.pdf''] empty_world =
       (w', Inr False) \<and> store w' = empty_graph \<and> trace w' = [IsFile (JStr ''missing.pdf'')]"
    by (simp add: empty_world_def)
  with h show ?thesis by blast
qed

subsection \<open>The limit\<close>

lemma ingest_loop_limit_reached:
  "l \<le> processed \<Longrightarrow>
   ingest_loop e cs co (Some l) items processed w = (w, Inr processed)"
  by (cases items) simp_all

lemma ingest_loop_prefix:
  "ingest_loop e cs co (Some l) xs p w = (w', Inr n) \<Longrightarrow> l \<le> n \<Longrightarrow>
   ingest_loop e cs co (Some l) (xs @ ys) p w = (w', Inr n)"
proof (induction xs arbitrary: p w)
  case Nil
  then show ?case by (simp add: ingest_loop_limit_reached)
next
  case (Cons item xs)
  show ?case
  proof (cases "l \<le> p")
    case True
    with Cons.prems show ?thesis by simp
  next
    case False
    obtain w1 r where it: "ingest_item e cs co item w = (w1, r)"
      by (cases "ingest_item e cs co item w")
    show ?thesis
    proof (cases r)
      case (Inl err)
      with Cons.prems False it show ?thesis by simp
    next
      case (Inr counted)
      with Cons.prems False it
      have "ingest_loop e cs co (Some l) xs (if counted then p + 1 else p) w1 = (w', Inr n)"
        by simp
      from Cons.IH [OF this Cons.prems(2)] False it Inr show ?thesis by simp
    qed
  qed
qed

lemma ingest_loop_all_valid:
  assumes "\<forall>item \<in> set items. \<forall>w. snd (ingest_item e cs co item w) = Inr True"
    and "p \<le> l"
  shows "ingest_loop e cs co (Some l) items p w =
           ingest_loop e cs co None (take (nat (l - p)) items) p w \<and>
         snd (ingest_loop e cs co (Some l) items p w) = Inr (min l (p + int (length items)))"
  using assms
proof (induction items arbitrary: p w)
  case Nil
  then show ?case by simp
next
  case (Cons item items)
  show ?case
  proof (cases "p = l")
    case True
    then show ?thesis by simp
  next
    case False
    with Cons.prems have lt: "p < l" by simp
    obtain w1 r where it: "ingest_item e cs co item w = (w1, r)"
      by (cases "ingest_item e cs co item w")
    with Cons.prems(1) have r: "r = Inr True"
      by (metis list.set_intros(1) snd_conv)
    have "nat (l - p) = Suc (nat (l - (p + 1)))"
      using lt by simp
    then have tk: "take (nat (l - p)) (item # items) = item # take (nat (l - (p + 1))) items"
      by simp
    have v: "\<forall>item \<in> set items. \<forall>w. snd (ingest_item e cs co item w) = Inr True"
      using Cons.prems(1) by simp
    have le: "p + 1 \<le> l" using lt by simp
    note ih = Cons.IH [OF v le, of w1]
    have lhs: "ingest_loop e cs co (Some l) (item # items) p w =
        ingest_loop e cs co (Some l) items (p + 1) w1"
      using lt it r by simp
    have rhs: "ingest_loop e cs co None (take (nat (l - p)) (item # items)) p w =
        ingest_loop e cs co None (take (nat (l - (p + 1))) items) (p + 1) w1"
      unfolding tk using it r by simp
    have m: "min l (p + 1 + int (length items)) = min l (p + int (length (item # items)))"
      by simp
    show ?thesis
      unfolding lhs rhs m [symmetric] by (rule ih)
  qed
qed

text \<open>
  C3. With a limit \<open>l\<close> the loop takes the entries in the order of the manifest and leaves
  as soon as the counter has reached \<open>l\<close>: from a counter that has reached the limit the
  loop returns at once, world untouched, whatever entries remain; a run that ends with the
  limit reached is the same run, with the same world and trace, whatever entries follow
  in the manifest; and on a manifest whose entries all count, the run with limit \<open>l\<close> is
  the run without limit on the first \<open>l\<close> entries and reports \<open>min l (length items)\<close>.
\<close>

theorem limit_stops_iteration:
  "(l \<le> processed \<longrightarrow>
      ingest_loop e chunk_size chunk_overlap (Some l) items processed w = (w, Inr processed)) \<and>
   (\<forall>w' n. ingest_loop e chunk_size chunk_overlap (Some l) xs processed w = (w', Inr n) \<and> l \<le> n \<longrightarrow>
      ingest_loop e chunk_size chunk_overlap (Some l) (xs @ ys) processed w = (w', Inr n)) \<and>
   ((\<forall>item \<in> set items. \<forall>w. snd (ingest_item e chunk_size chunk_overlap item w) = Inr True) \<and>
    0 \<le> l \<longrightarrow>
      ingest_loop e chunk_size chunk_overlap (Some l) items 0 w =
        ingest_loop e chunk_size chunk_overlap None (take (nat l) items) 0 w \<and>
      snd (ingest_loop e chunk_size chunk_overlap (Some l) items 0 w) =
        Inr (min l (int (length items))))"
proof (intro conjI impI allI)
  assume "l \<le> processed"
  then show "ingest_loop e chunk_size chunk_overlap (Some l) items processed w =
      (w, Inr processed)"
    by (rule ingest_loop_limit_reached)
next
  fix w' n
  assume "ingest_loop e chunk_size chunk_overlap (Some l) xs processed w = (w', Inr n) \<and> l \<le> n"
  then show "ingest_loop e chunk_size chunk_overlap (Some l) (xs @ ys) processed w =
      (w', Inr n)"
    by (simp add: ingest_loop_prefix)
next
  assume a: "(\<forall>item \<in> set items. \<forall>w.
      snd (ingest_item e chunk_size chunk_overlap item w) = Inr True) \<and> 0 \<le> l"
  then have v: "\<forall>item \<in> set items. \<forall>w.
      snd (ingest_item e chunk_size chunk_overlap item w) = Inr True"
    and l: "0 \<le> l" by simp_all
  have z: "nat (l - 0) = nat l" "0 + int (length items) = int (length items)"
    by simp_all
  note av = ingest_loop_all_valid [OF v l, of w, unfolded z]
  from av [THEN conjunct1]
  show "ingest_loop e chunk_size chunk_overlap (Some l) items 0 w =
      ingest_loop e chunk_size chunk_overlap None (take (nat l) items) 0 w" .
  from av [THEN conjunct2]
  show "snd (ingest_loop e chunk_size chunk_overlap (Some l) items 0 w) =
      Inr (min l (int (length items)))" .
qed

lemma demo_manifest_valid:
  "\<forall>item \<in> set demo_manifest. \<forall>w. snd (ingest_item demo_env 1000 200 item w) = Inr True"
proof (intro ballI allI)
  fix item w
  assume "item \<in> set demo_manifest"
  then have "snd (ingest_item demo_env 1000 200 item empty_world) = Inr True"
    unfolding demo_manifest_def by (auto simp: ingest_defs demo_defs)
  then show "snd (ingest_item demo_env 1000 200 item w) = Inr True"
    by (simp add: ingest_item_status_indep [of _ _ _ _ w empty_world])
qed

lemma demo_limit_trace:
  "trace (fst (ingest_loop demo_env 1000 200 (Some 2) demo_manifest 0 empty_world)) =
     [IsFile (JStr ''a.pdf''), Extract (JStr ''a.pdf''),
      GraphQuery (Upsert \<lparr>param_path = JStr ''a.pdf'', param_title = JStr ''a.pdf'',
                           param_file_name = JStr ''a.pdf'', param_page_count = 3,
                           param_mime_type = JStr ''application/pdf''\<rparr>
                    [\<lparr>page = 1, idx = 0, chunk_text = [97]\<rparr>,
                     \<lparr>page = 1, idx = 2, chunk_text = [98]\<rparr>,
                     \<lparr>page = 3, idx = 0, chunk_text = [99]\<rparr>]),
      IsFile (JStr ''b.pdf''), Extract (JStr ''b.pdf''),
      GraphQuery (Register \<lparr>param_path = JStr ''b.pdf'', param_title = JStr ''b.pdf'',
                             param_file_name = JStr ''b.pdf'', param_page_count = 0,
                             param_mime_type = JStr ''application/pdf''\<rparr>)]"
  by (simp add: ingest_defs demo_defs)

theorem limit_stops_iteration_witness:
  "length demo_manifest = 5 \<and>
   ingest_loop demo_env 1000 200 (Some 2) demo_manifest 0 empty_world =
     ingest_loop demo_env 1000 200 None (take 2 demo_manifest) 0 empty_world \<and>
   snd (ingest_loop demo_env 1000 200 (Some 2) demo_manifest 0 empty_world) = Inr 2 \<and>
   trace (fst (ingest_loop demo_env 1000 200 (Some 2) demo_manifest 0 empty_world)) =
     [IsFile (JStr ''a.pdf''), Extract (JStr ''a.pdf''),
      GraphQuery (Upsert \<lparr>param_path = JStr ''a.pdf'', param_title = JStr ''a.pdf'',
                           param_file_name = JStr ''a.pdf'', param_page_count = 3,
                           param_mime_type = JStr ''application/pdf''\<rparr>
                    [\<lparr>page = 1, idx = 0, chunk_text = [97]\<rparr>,
                     \<lparr>page = 1, idx = 2, chunk_text = [98]\<rparr>,
                     \<lparr>page = 3, idx = 0, chunk_text = [99]\<rparr>]),
      IsFile (JStr ''b.pdf''), Extract (JStr ''b.pdf''),
      GraphQuery (Register \<lparr>param_path = JStr ''b.pdf'', param_title = JStr ''b.pdf'',
                             param_file_name = JStr ''b.pdf'', param_page_count = 0,
                             param_mime_type = JStr ''application/pdf''\<rparr>)]"
proof -
  have n: "length demo_manifest = 5" by (simp add: demo_manifest_def)
  have v: "(\<forall>item \<in> set demo_manifest. \<forall>w.
      snd (ingest_item demo_env 1000 200 item w) = Inr True) \<and> (0::int) \<le> 2"
    using demo_manifest_valid by simp
  note t = limit_stops_iteration [of 2 0 demo_env 1000 200 demo_manifest empty_world "[]" "[]"]
  note r = t [THEN conjunct2, THEN conjunct2, THEN mp, OF v]
  have z: "nat 2 = 2" "min (2::int) (int (length demo_manifest)) = 2"
    using n by simp_all
  from r [unfolded z] have a: "ingest_loop demo_env 1000 200 (Some 2) demo_manifest 0 empty_world =
      ingest_loop demo_env 1000 200 None (take 2 demo_manifest) 0 empty_world"
    and b: "snd (ingest_loop demo_env 1000 200 (Some 2) demo_manifest 0 empty_world) = Inr 2"
    by (rule conjunct1, rule conjunct2)
  from n a b demo_limit_trace show ?thesis
    by (intro conjI)
qed

subsection \<open>A limit that is not positive\<close>

text \<open>
  C9. When the manifest exists and loads and the limit is zero or negative, the run
  processes no entry of the manifest and sends nothing to the store: after the check and
  the load of the manifest it builds the vector index once, reports a processed count of 0
  and ends without an error.
\<close>

theorem nonpositive_limit_processes_nothing:
  assumes "l \<le> 0"
    and "isfile e (JStr json_path) = Inr True"
    and "json_load e json_path = Inr items"
  shows "ingest_from_json e json_path index_name embedding_model chunk_size chunk_overlap
           (Some l) w =
         (w\<lparr>trace := trace w @ [IsFile (JStr json_path), JsonLoad json_path,
                                 BuildIndex embedding_model index_name, Print 0 index_name]\<rparr>,
          Inr ())"
  using assms
  by (simp add: ingest_from_json_def ingest_loop_limit_reached log_event_def)

theorem nonpositive_limit_processes_nothing_witness:
  "isfile demo_env (JStr ''m.json'') = Inr True \<and>
   json_load demo_env ''m.json'' = Inr demo_manifest \<and>
   ingest_from_json demo_env ''m.json'' ''pdf_chunks'' ''qwen3-embedding:0.6b'' 1000 200
       (Some 0) empty_world =
     (\<lparr>store = empty_graph,
       trace = [IsFile (JStr ''m.json''), JsonLoad ''m.json'',
                BuildIndex ''qwen3-embedding:0.6b'' ''pdf_chunks'', Print 0 ''pdf_chunks'']\<rparr>,
      Inr ())"
proof -
  have f: "isfile demo_env (JStr ''m.json'') = Inr True"
    by (simp add: demo_env_def)
  have j: "json_load demo_env ''m.json'' = Inr demo_manifest"
    by (simp add: demo_env_def)
  have l: "(0::int) \<le> 0" by simp
  from nonpositive_limit_processes_nothing [OF l f j, of "''pdf_chunks''"
      "''qwen3-embedding:0.6b''" 1000 200 empty_world] f j
  show ?thesis by (simp add: empty_world_def)
qed

section \<open>The graph store\<close>

subsection \<open>What each clause leaves alone\<close>

lemma chunk_matches_key: "chunk_matches p ck c \<longleftrightarrow> chunk_key c = (p, page ck, idx ck)"
  by (auto simp: chunk_matches_def chunk_key_def)

lemma merge_chunk_frame [simp]:
  "documents (merge_chunk p ck g) = documents g"
  "has_chunk (merge_chunk p ck g) = has_chunk g"
  by (simp_all add: merge_chunk_def)

lemma set_content_frame [simp]:
  "documents (set_content p ck g) = documents g"
  "has_chunk (set_content p ck g) = has_chunk g"
  "next_id (set_content p ck g) = next_id g"
  by (simp_all add: set_content_def)

lemma merge_has_chunk_frame [simp]:
  "documents (merge_has_chunk d c g) = documents g"
  "chunks (merge_has_chunk d c g) = chunks g"
  "next_id (merge_has_chunk d c g) = next_id g"
  by (simp_all add: merge_has_chunk_def)

lemma fold_merge_has_chunk_frame [simp]:
  "documents (fold (\<lambda>c. merge_has_chunk d (chunk_id c)) cs g) = documents g"
  "chunks (fold (\<lambda>c. merge_has_chunk d (chunk_id c)) cs g) = chunks g"
  "next_id (fold (\<lambda>c. merge_has_chunk d (chunk_id c)) cs g) = next_id g"
  by (induction cs arbitrary: g) simp_all

lemma merge_has_chunk_row_frame [simp]:
  "documents (merge_has_chunk_row p row g) = documents g"
  "chunks (merge_has_chunk_row p row g) = chunks g"
  "next_id (merge_has_chunk_row p row g) = next_id g"
  by (simp_all add: merge_has_chunk_row_def)

lemma fold_merge_chunk_frame [simp]:
  "documents (fold (\<lambda>row. merge_chunk p (snd row)) rows g) = documents g"
  "has_chunk (fold (\<lambda>row. merge_chunk p (snd row)) rows g) = has_chunk g"
  by (induction rows arbitrary: g) simp_all

lemma fold_set_content_frame [simp]:
  "documents (fold (\<lambda>row. set_content p (snd row)) rows g) = documents g"
  "has_chunk (fold (\<lambda>row. set_content p (snd row)) rows g) = has_chunk g"
  "next_id (fold (\<lambda>row. set_content p (snd row)) rows g) = next_id g"
  by (induction rows arbitrary: g) simp_all

lemma fold_merge_has_chunk_row_frame [simp]:
  "documents (fold (merge_has_chunk_row p) rows g) = documents g"
  "chunks (fold (merge_has_chunk_row p) rows g) = chunks g"
  "next_id (fold (merge_has_chunk_row p) rows g) = next_id g"
  by (induction rows arbitrary: g) simp_all

lemma set_document_frame [simp]:
  "chunks (set_document ps g) = chunks g"
  "has_chunk (set_document ps g) = has_chunk g"
  "next_id (set_document ps g) = next_id g"
  by (simp_all add: set_document_def)

lemma merge_document_frame [simp]:
  "chunks (merge_document p g) = chunks g"
  "has_chunk (merge_document p g) = has_chunk g"
  by (simp_all add: merge_document_def)

lemma documents_upsert:
  "documents (graph_query (Upsert ps cks) g) =
     documents (set_document ps (merge_document (param_path ps) g))"
  by (simp add: Let_def)

lemma merge_document_has:
  "\<exists>d \<in> set (documents (merge_document p g)). path d = p"
  by (auto simp: merge_document_def)

lemma set_document_sets:
  "d \<in> set (documents (set_document ps g)) \<Longrightarrow> path d = param_path ps \<Longrightarrow>
     title d = param_title ps \<and> file_name d = param_file_name ps \<and>
     page_count d = JInt (param_page_count ps) \<and> mime_type d = param_mime_type ps"
  by (auto simp: set_document_def split: if_splits)

lemma map_path_set_document [simp]:
  "map path (documents (set_document ps g)) = map path (documents g)"
  by (simp add: set_document_def)

lemma set_document_has:
  "(\<exists>d \<in> set (documents (set_document ps g)). path d = p) \<longleftrightarrow>
   (\<exists>d \<in> set (documents g). path d = p)"
proof -
  have "p \<in> set (map path (documents (set_document ps g))) \<longleftrightarrow>
        p \<in> set (map path (documents g))" by simp
  then show ?thesis by (simp only: set_map image_iff) metis
qed

section \<open>What is stored for an entry\<close>

lemma ingest_item_valid:
  assumes "truthy (item_path item)"
    and "isfile e (item_path item) = Inr True"
    and "item_title e item (item_path item) = Inr ttl"
    and "item_file_name e item (item_path item) = Inr fname"
    and "extract_pdf_text_by_page e (item_path item) = Inr pages"
    and "chunk_pages e pages cs co = Inr cks"
  shows "ingest_item e cs co item w =
           (run_query
              (if cks = [] then
                 Register \<lparr>param_path = item_path item, param_title = ttl,
                           param_file_name = fname,
                           param_page_count = item_page_count e item,
                           param_mime_type = item_mime_type item\<rparr>
               else
                 Upsert \<lparr>param_path = item_path item, param_title = ttl,
                         param_file_name = fname,
                         param_page_count =
                           (if item_page_count e item \<noteq> 0 then item_page_count e item
                            else int (length pages)),
                         param_mime_type = item_mime_type item\<rparr> cks)
              (log_event (Extract (item_path item)) (log_event (IsFile (item_path item)) w)),
            Inr True)"
  using assms by (simp add: ingest_item_def ingest_file_def Let_def)

text \<open>
  C5. An entry that gives a path and none of the keys \<^verbatim>\<open>title\<close>, \<^verbatim>\<open>Title\<close>,
  \<^verbatim>\<open>FileName\<close>, \<^verbatim>\<open>MIMEType\<close>, \<^verbatim>\<open>mime_type\<close>, \<^verbatim>\<open>PageCount\<close>, \<^verbatim>\<open>pages\<close>, and
  whose file yields at least one chunk, is counted, and afterwards the store has a
  Document with that path, and every Document with that path has the base name of the
  path as title and as file name, the MIME type \<^verbatim>\<open>application/pdf\<close> and the number of
  extracted pages as page count.
\<close>

theorem path_only_entry_metadata:
  assumes "\<forall>k \<in> {''title'', ''Title'', ''FileName'', ''MIMEType'', ''mime_type'',
                   ''PageCount'', ''pages''}. item k = None"
    and "truthy (item_path item)"
    and "isfile e (item_path item) = Inr True"
    and "basename e (item_path item) = Inr b"
    and "extract_pdf_text_by_page e (item_path item) = Inr pages"
    and "chunk_pages e pages chunk_size chunk_overlap = Inr cks"
    and "cks \<noteq> []"
  shows "\<exists>w'. ingest_item e chunk_size chunk_overlap item w = (w', Inr True) \<and>
           (\<exists>d \<in> set (documents (store w')). path d = item_path item) \<and>
           (\<forall>d \<in> set (documents (store w')). path d = item_path item \<longrightarrow>
              title d = JStr b \<and> file_name d = JStr b \<and>
              mime_type d = JStr ''application/pdf'' \<and>
              page_count d = JInt (int (length pages)))"
proof -
  from assms(1) have t: "item_title e item (item_path item) = Inr (JStr b)"
    and f: "item_file_name e item (item_path item) = Inr (JStr b)"
    and m: "item_mime_type item = JStr ''application/pdf''"
    and c: "item_page_count e item = 0"
    using assms(4)
    by (simp_all add: item_title_def item_file_name_def item_mime_type_def
          item_page_count_def py_get_def py_or_def as_int_def py_int_def)
  let ?ps = "\<lparr>param_path = item_path item, param_title = JStr b, param_file_name = JStr b,
              param_page_count = int (length pages),
              param_mime_type = JStr ''application/pdf''\<rparr>"
  let ?w = "run_query (Upsert ?ps cks)
              (log_event (Extract (item_path item)) (log_event (IsFile (item_path item)) w))"
  have r: "ingest_item e chunk_size chunk_overlap item w = (?w, Inr True)"
    using ingest_item_valid [OF assms(2,3) t f assms(5,6), of w] assms(7) m c by simp
  have d: "documents (store ?w) =
      documents (set_document ?ps (merge_document (item_path item) (store w)))"
    by (simp add: run_query_def log_event_def documents_upsert del: graph_query.simps)
  have 1: "\<exists>d \<in> set (documents (store ?w)). path d = item_path item"
    unfolding d by (simp only: set_document_has merge_document_has)
  have 2: "\<forall>d \<in> set (documents (store ?w)). path d = item_path item \<longrightarrow>
              title d = JStr b \<and> file_name d = JStr b \<and>
              mime_type d = JStr ''application/pdf'' \<and>
              page_count d = JInt (int (length pages))"
    unfolding d using set_document_sets [of _ ?ps] by fastforce
  from r 1 2 show ?thesis by blast
qed

theorem path_only_entry_metadata_witness:
  "\<exists>w'. ingest_item demo_env 1000 200 [''path'' \<mapsto> JStr ''a.pdf''] empty_world = (w', Inr True) \<and>
         (\<exists>d \<in> set (documents (store w')).
            path d = JStr ''a.pdf'' \<and> title d = JStr ''a.pdf'' \<and> file_name d = JStr ''a.pdf'' \<and>
            mime_type d = JStr ''application/pdf'' \<and> page_count d = JInt 3)"
proof -
  let ?item = "[''path'' \<mapsto> JStr ''a.pdf'']"
  have p: "item_path ?item = JStr ''a.pdf''"
    by (simp add: item_path_def py_get_def py_or_def)
  have h1: "\<forall>k \<in> {''title'', ''Title'', ''FileName'', ''MIMEType'', ''mime_type'',
                   ''PageCount'', ''pages''}. ?item k = None"
    by simp
  have h2: "truthy (item_path ?item)" by (simp add: p)
  have h3: "isfile demo_env (item_path ?item) = Inr True"
    by (simp add: p demo_env_def)
  have h4: "basename demo_env (item_path ?item) = Inr ''a.pdf''"
    by (simp add: p demo_env_def)
  have h5: "extract_pdf_text_by_page demo_env (item_path ?item) = Inr [[97, 32, 98], [], [99]]"
    by (simp add: p demo_env_def extract_pdf_text_by_page_def)
  have h6: "chunk_pages demo_env [[97, 32, 98], [], [99]] 1000 200 =
     Inr [\<lparr>page = 1, idx = 0, chunk_text = [97]\<rparr>, \<lparr>page = 1, idx = 2, chunk_text = [98]\<rparr>,
          \<lparr>page = 3, idx = 0, chunk_text = [99]\<rparr>]"
    by (simp add: chunk_pages_def demo_env_def char_split_def py_strip_def py_isspace_def)
  have h7: "[\<lparr>page = 1, idx = 0, chunk_text = [97]\<rparr>, \<lparr>page = 1, idx = 2, chunk_text = [98]\<rparr>,
          \<lparr>page = 3, idx = 0, chunk_text = [99::nat]\<rparr>] \<noteq> []"
    by simp
  from path_only_entry_metadata [OF h1 h2 h3 h4 h5 h6 h7, of empty_world]
  obtain w' where r: "ingest_item demo_env 1000 200 ?item empty_world = (w', Inr True)"
    and ex: "\<exists>d \<in> set (documents (store w')). path d = item_path ?item"
    and al: "\<forall>d \<in> set (documents (store w')). path d = item_path ?item \<longrightarrow>
              title d = JStr ''a.pdf'' \<and> file_name d = JStr ''a.pdf'' \<and>
              mime_type d = JStr ''application/pdf'' \<and>
              page_count d = JInt (int (length [[97, 32, 98], [], [99::nat]]))"
    by (elim exE conjE)
  from ex obtain d where d: "d \<in> set (documents (store w'))" "path d = item_path ?item"
    by blast
  with al have "title d = JStr ''a.pdf'' \<and> file_name d = JStr ''a.pdf'' \<and>
              mime_type d = JStr ''application/pdf'' \<and> page_count d = JInt 3"
    by simp
  with d p r show ?thesis by auto
qed

subsection \<open>Documents without chunks\<close>

text \<open>
  C1, as stated, fails: the branch for a file without chunks stores the page count of
  the descriptor. The file \<^verbatim>\<open>b.pdf\<close> has three pages and no chunk; with a descriptor that
  says 7 pages the stored page count is 7, not 3.
\<close>

theorem empty_document_page_count_counterexample:
  "extract_pdf_text_by_page demo_env (JStr ''b.pdf'') = Inr [[], [], [32]] \<and>
   chunk_pages demo_env [[], [], [32]] 1000 200 = Inr [] \<and>
   map page_count (documents (store (fst (ingest_item demo_env 1000 200
       [''path'' \<mapsto> JStr ''b.pdf'', ''PageCount'' \<mapsto> JInt 7] empty_world)))) = [JInt 7] \<and>
   JInt 7 \<noteq> JInt (int (length [[], [], [32::nat]]))"
  by (simp add: ingest_defs store_defs demo_defs)

text \<open>
  C1, amended. An entry whose path is an existing file and whose pages yield no chunk is
  counted; afterwards the store has a Document with that path, carrying the title, file
  name and MIME type of the descriptor (with their fallbacks), the Chunk nodes and the
  relationships of the store are what they were, and when the descriptor gives a page
  count other than zero every Document with that path has that page count.
\<close>

theorem register_document_without_chunks:
  assumes "truthy (item_path item)"
    and "isfile e (item_path item) = Inr True"
    and "item_title e item (item_path item) = Inr ttl"
    and "item_file_name e item (item_path item) = Inr fname"
    and "extract_pdf_text_by_page e (item_path item) = Inr pages"
    and "chunk_pages e pages chunk_size chunk_overlap = Inr []"
  shows "\<exists>w'. ingest_item e chunk_size chunk_overlap item w = (w', Inr True) \<and>
           (\<exists>d \<in> set (documents (store w')). path d = item_path item) \<and>
           chunks (store w') = chunks (store w) \<and>
           has_chunk (store w') = has_chunk (store w) \<and>
           (\<forall>d \<in> set (documents (store w')). path d = item_path item \<longrightarrow>
              title d = ttl \<and> file_name d = fname \<and> mime_type d = item_mime_type item) \<and>
           (item_page_count e item \<noteq> 0 \<longrightarrow>
              (\<forall>d \<in> set (documents (store w')). path d = item_path item \<longrightarrow>
                 page_count d = JInt (item_page_count e item)))"
proof -
  let ?ps = "\<lparr>param_path = item_path item, param_title = ttl, param_file_name = fname,
              param_page_count = item_page_count e item,
              param_mime_type = item_mime_type item\<rparr>"
  let ?w = "run_query (Register ?ps)
              (log_event (Extract (item_path item)) (log_event (IsFile (item_path item)) w))"
  have r: "ingest_item e chunk_size chunk_overlap item w = (?w, Inr True)"
    using ingest_item_valid [OF assms, of w] by simp
  have s: "store ?w = set_document ?ps (merge_document (item_path item) (store w))"
    by (simp add: run_query_def log_event_def)
  have 1: "\<exists>d \<in> set (documents (store ?w)). path d = item_path item"
    unfolding s by (simp only: set_document_has merge_document_has)
  have 2: "chunks (store ?w) = chunks (store w)" "has_chunk (store ?w) = has_chunk (store w)"
    unfolding s by simp_all
  have 3: "\<forall>d \<in> set (documents (store ?w)). path d = item_path item \<longrightarrow>
              title d = ttl \<and> file_name d = fname \<and> mime_type d = item_mime_type item \<and>
              page_count d = JInt (item_page_count e item)"
    unfolding s using set_document_sets [of _ ?ps] by fastforce
  from r 1 2 3 show ?thesis by blast
qed

theorem register_document_without_chunks_witness:
  "\<exists>w'. ingest_item demo_env 1000 200 [''path'' \<mapsto> JStr ''b.pdf'', ''PageCount'' \<mapsto> JInt 7]
           empty_world = (w', Inr True) \<and>
         chunks (store w') = [] \<and>
         (\<exists>d \<in> set (documents (store w')). path d = JStr ''b.pdf'' \<and> page_count d = JInt 7)"
proof -
  let ?item = "[''path'' \<mapsto> JStr ''b.pdf'', ''PageCount'' \<mapsto> JInt 7]"
  have p: "item_path ?item = JStr ''b.pdf''"
    by (simp add: item_path_def py_get_def py_or_def)
  have c: "item_page_count demo_env ?item = 7"
    by (simp add: item_page_count_def py_get_def py_or_def as_int_def py_int_def)
  have h1: "truthy (item_path ?item)" by (simp add: p)
  have h2: "isfile demo_env (item_path ?item) = Inr True"
    by (simp add: p demo_env_def)
  have h3: "item_title demo_env ?item (item_path ?item) = Inr (JStr ''b.pdf'')"
    by (simp add: p item_title_def py_get_def demo_env_def)
  have h4: "item_file_name demo_env ?item (item_path ?item) = Inr (JStr ''b.pdf'')"
    by (simp add: p item_file_name_def py_get_def demo_env_def)
  have h5: "extract_pdf_text_by_page demo_env (item_path ?item) = Inr [[], [], [32]]"
    by (simp add: p demo_env_def extract_pdf_text_by_page_def)
  have h6: "chunk_pages demo_env [[], [], [32]] 1000 200 = Inr []"
    by (simp add: chunk_pages_def demo_env_def char_split_def py_strip_def py_isspace_def)
  from register_document_without_chunks [OF h1 h2 h3 h4 h5 h6, of empty_world]
  obtain w' where r: "ingest_item demo_env 1000 200 ?item empty_world = (w', Inr True)"
    and ex: "\<exists>d \<in> set (documents (store w')). path d = item_path ?item"
    and ch: "chunks (store w') = chunks (store empty_world)"
    and pc: "item_page_count demo_env ?item \<noteq> 0 \<longrightarrow>
              (\<forall>d \<in> set (documents (store w')). path d = item_path ?item \<longrightarrow>
                 page_count d = JInt (item_page_count demo_env ?item))"
    by (elim exE conjE)
  from ex obtain d where d: "d \<in> set (documents (store w'))" "path d = item_path ?item"
    by blast
  with pc c have "page_count d = JInt 7" by simp
  moreover from ch have "chunks (store w') = []"
    by (simp add: empty_world_def empty_graph_def)
  ultimately show ?thesis using d p r by auto
qed

section \<open>Re-ingestion\<close>

subsection \<open>Clauses that change nothing\<close>

lemma merge_document_noop:
  "\<exists>d \<in> set (documents g). path d = p \<Longrightarrow> merge_document p g = g"
  by (simp add: merge_document_def)

lemma set_document_noop:
  assumes "documents g' = documents (set_document ps g0)"
  shows "set_document ps g' = g'"
proof -
  let ?f = "\<lambda>d. if path d = param_path ps
                   then d\<lparr>title := param_title ps, file_name := param_file_name ps,
                          page_count := JInt (param_page_count ps),
                          mime_type := param_mime_type ps\<rparr>
                   else d"
  have "map ?f (documents g') = map ?f (map ?f (documents g0))"
    using assms by (simp add: set_document_def)
  also have "\<dots> = map ?f (documents g0)"
    by simp
  also have "\<dots> = documents g'"
    using assms by (simp add: set_document_def)
  finally show ?thesis
    by (simp add: set_document_def)
qed

lemma merge_chunk_noop:
  "\<exists>c \<in> set (chunks g). chunk_matches p ck c \<Longrightarrow> merge_chunk p ck g = g"
  by (simp add: merge_chunk_def)

lemma fold_merge_chunk_noop:
  "\<forall>row \<in> set rows. \<exists>c \<in> set (chunks g). chunk_matches p (snd row) c \<Longrightarrow>
   fold (\<lambda>row. merge_chunk p (snd row)) rows g = g"
  by (induction rows) (simp_all add: merge_chunk_noop)

lemma has_match_iff:
  "(\<exists>c \<in> set (chunks g). chunk_matches p ck c) \<longleftrightarrow>
   (p, page ck, idx ck) \<in> set (map chunk_key (chunks g))"
  by (force simp: chunk_matches_key image_iff)

lemma merge_chunk_keys:
  "set (map chunk_key (chunks (merge_chunk p ck g))) =
     insert (p, page ck, idx ck) (set (map chunk_key (chunks g)))"
  by (auto simp: merge_chunk_def chunk_key_def chunk_matches_def)

lemma fold_merge_chunk_keys:
  "set (map chunk_key (chunks (fold (\<lambda>row. merge_chunk p (snd row)) rows g))) =
     set (map chunk_key (chunks g)) \<union> (\<lambda>row. (p, page (snd row), idx (snd row))) ` set rows"
proof (induction rows arbitrary: g)
  case Nil
  then show ?case by simp
next
  case (Cons row rows)
  show ?case
    by (simp only: fold_simps Cons.IH merge_chunk_keys list.set image_insert) blast
qed

lemma set_content_keys [simp]:
  "map chunk_key (chunks (set_content p ck g)) = map chunk_key (chunks g)"
  by (simp add: set_content_def chunk_key_def)

lemma fold_set_content_keys [simp]:
  "map chunk_key (chunks (fold (\<lambda>row. set_content p (snd row)) rows g)) =
     map chunk_key (chunks g)"
  by (induction rows arbitrary: g) simp_all

subsection \<open>Setting the content twice\<close>

lemma set_content_node_matches [simp]:
  "chunk_matches p ck (set_content_node p ck' c) = chunk_matches p ck c"
  by (simp add: set_content_node_def chunk_matches_def)

lemma set_content_rows_Nil [simp]: "set_content_rows p [] c = c"
  by (simp add: set_content_rows_def)

lemma set_content_rows_Cons [simp]:
  "set_content_rows p (row # rows) c = set_content_rows p rows (set_content_node p (snd row) c)"
  by (simp add: set_content_rows_def)

lemma set_content_as_map:
  "set_content p ck g = g\<lparr>chunks := map (set_content_node p ck) (chunks g)\<rparr>"
  by (simp add: set_content_def set_content_node_def)

lemma fold_set_content_as_map:
  "fold (\<lambda>row. set_content p (snd row)) rows g =
     g\<lparr>chunks := map (set_content_rows p rows) (chunks g)\<rparr>"
proof (induction rows arbitrary: g)
  case Nil
  then show ?case by simp
next
  case (Cons row rows)
  show ?case
    by (simp add: Cons.IH) (simp add: set_content_as_map comp_def)
qed

lemma set_content_rows_no_match:
  "\<forall>row \<in> set rows. \<not> chunk_matches p (snd row) c \<Longrightarrow> set_content_rows p rows c = c"
  by (induction rows arbitrary: c) (simp_all add: set_content_node_def)

lemma set_content_rows_only_content:
  "set_content_rows p rows c = c\<lparr>content := content (set_content_rows p rows c)\<rparr>"
proof (induction rows arbitrary: c)
  case Nil
  then show ?case by simp
next
  case (Cons row rows)
  have "set_content_rows p rows (set_content_node p (snd row) c) =
        (set_content_node p (snd row) c)
          \<lparr>content := content (set_content_rows p rows (set_content_node p (snd row) c))\<rparr>"
    by (rule Cons.IH)
  also have "\<dots> = c\<lparr>content := content (set_content_rows p rows (set_content_node p (snd row) c))\<rparr>"
    by (simp add: set_content_node_def)
  finally show ?case by simp
qed

lemma set_content_rows_matches [simp]:
  "chunk_matches p ck (set_content_rows p rows c) = chunk_matches p ck c"
  by (induction rows arbitrary: c) simp_all

lemma set_content_rows_content:
  assumes "\<And>ck. chunk_matches p ck c' = chunk_matches p ck c"
    and "\<exists>row \<in> set rows. chunk_matches p (snd row) c"
  shows "content (set_content_rows p rows c') = content (set_content_rows p rows c)"
  using assms
proof (induction rows arbitrary: c c')
  case Nil
  then show ?case by simp
next
  case (Cons row rows)
  let ?d = "set_content_node p (snd row) c" and ?d' = "set_content_node p (snd row) c'"
  have k: "\<And>ck. chunk_matches p ck ?d' = chunk_matches p ck ?d"
    using Cons.prems(1) by simp
  show ?case
  proof (cases "\<exists>r \<in> set rows. chunk_matches p (snd r) c")
    case True
    then have "\<exists>r \<in> set rows. chunk_matches p (snd r) ?d" by simp
    from Cons.IH [OF k this] show ?thesis by simp
  next
    case False
    with Cons.prems(2) have m: "chunk_matches p (snd row) c" by auto
    from False have n: "\<forall>r \<in> set rows. \<not> chunk_matches p (snd r) ?d"
      and n': "\<forall>r \<in> set rows. \<not> chunk_matches p (snd r) ?d'"
      using Cons.prems(1) by simp_all
    from m Cons.prems(1) have "content ?d' = content ?d"
      by (simp add: set_content_node_def)
    then show ?thesis
      by (simp add: set_content_rows_no_match [OF n] set_content_rows_no_match [OF n'])
  qed
qed

lemma set_content_rows_idem:
  "set_content_rows p rows (set_content_rows p rows c) = set_content_rows p rows c"
proof (cases "\<exists>row \<in> set rows. chunk_matches p (snd row) c")
  case False
  then show ?thesis by (simp add: set_content_rows_no_match)
next
  case True
  let ?c' = "set_content_rows p rows c"
  have "set_content_rows p rows ?c' = ?c'\<lparr>content := content (set_content_rows p rows ?c')\<rparr>"
    by (rule set_content_rows_only_content)
  also have "content (set_content_rows p rows ?c') = content ?c'"
    by (rule set_content_rows_content [OF _ True]) simp
  finally show ?thesis by simp
qed

lemma fold_set_content_noop:
  assumes "chunks g' = chunks (fold (\<lambda>row. set_content p (snd row)) rows g0)"
  shows "fold (\<lambda>row. set_content p (snd row)) rows g' = g'"
proof -
  have "map (set_content_rows p rows) (chunks g') = chunks g'"
    unfolding assms by (simp add: fold_set_content_as_map set_content_rows_idem)
  then show ?thesis
    by (simp add: fold_set_content_as_map)
qed

subsection \<open>Relationships\<close>

lemma fold_merge_has_chunk_set:
  "set (has_chunk (fold (\<lambda>c. merge_has_chunk d (chunk_id c)) cs g)) =
     set (has_chunk g) \<union> (\<lambda>c. (d, chunk_id c)) ` set cs"
  by (induction cs arbitrary: g) (auto simp: merge_has_chunk_def)

lemma fold_merge_has_chunk_noop:
  "\<forall>c \<in> set cs. (d, chunk_id c) \<in> set (has_chunk g) \<Longrightarrow>
   fold (\<lambda>c. merge_has_chunk d (chunk_id c)) cs g = g"
  by (induction cs) (simp_all add: merge_has_chunk_def)

lemma merge_has_chunk_row_set:
  "set (has_chunk (merge_has_chunk_row p row g)) =
     set (has_chunk g) \<union>
     (\<lambda>c. (fst row, chunk_id c)) ` {c \<in> set (chunks g). chunk_matches p (snd row) c}"
  by (simp add: merge_has_chunk_row_def fold_merge_has_chunk_set)

lemma merge_has_chunk_row_noop:
  "\<forall>c \<in> set (chunks g). chunk_matches p (snd row) c \<longrightarrow>
     (fst row, chunk_id c) \<in> set (has_chunk g) \<Longrightarrow>
   merge_has_chunk_row p row g = g"
  by (simp add: merge_has_chunk_row_def fold_merge_has_chunk_noop)

lemma fold_merge_has_chunk_row_noop:
  "\<forall>row \<in> set rows. \<forall>c \<in> set (chunks g). chunk_matches p (snd row) c \<longrightarrow>
     (fst row, chunk_id c) \<in> set (has_chunk g) \<Longrightarrow>
   fold (merge_has_chunk_row p) rows g = g"
  by (induction rows) (simp_all add: merge_has_chunk_row_noop)

lemma fold_merge_has_chunk_row_mono:
  "set (has_chunk g) \<subseteq> set (has_chunk (fold (merge_has_chunk_row p) rows g))"
proof (induction rows arbitrary: g)
  case Nil
  then show ?case by simp
next
  case (Cons row rows)
  have "set (has_chunk g) \<subseteq> set (has_chunk (merge_has_chunk_row p row g))"
    by (auto simp: merge_has_chunk_row_set)
  also note Cons.IH [of "merge_has_chunk_row p row g"]
  finally show ?case by simp
qed

lemma fold_merge_has_chunk_row_saturated:
  "\<forall>row \<in> set rows. \<forall>c \<in> set (chunks g). chunk_matches p (snd row) c \<longrightarrow>
     (fst row, chunk_id c) \<in> set (has_chunk (fold (merge_has_chunk_row p) rows g))"
proof (induction rows arbitrary: g)
  case Nil
  then show ?case by simp
next
  case (Cons row rows)
  let ?g = "merge_has_chunk_row p row g"
  have a: "\<forall>c \<in> set (chunks g). chunk_matches p (snd row) c \<longrightarrow>
      (fst row, chunk_id c) \<in> set (has_chunk ?g)"
    by (auto simp: merge_has_chunk_row_set)
  have b: "set (has_chunk ?g) \<subseteq> set (has_chunk (fold (merge_has_chunk_row p) rows ?g))"
    by (rule fold_merge_has_chunk_row_mono)
  from Cons.IH [of ?g] a b show ?case
    by (simp add: subset_iff)
qed

lemma unwind_rows_cong:
  "documents g' = documents g \<Longrightarrow> unwind_rows p cks g' = unwind_rows p cks g"
  by (simp add: unwind_rows_def)

lemma upsert_idempotent:
  "graph_query (Upsert ps cks) (graph_query (Upsert ps cks) g) = graph_query (Upsert ps cks) g"
proof -
  let ?p = "param_path ps"
  let ?g2 = "set_document ps (merge_document ?p g)"
  let ?rows = "unwind_rows ?p cks ?g2"
  let ?g3 = "fold (\<lambda>row. merge_chunk ?p (snd row)) ?rows ?g2"
  let ?g4 = "fold (\<lambda>row. set_content ?p (snd row)) ?rows ?g3"
  let ?g5 = "fold (merge_has_chunk_row ?p) ?rows ?g4"
  have u: "graph_query (Upsert ps cks) g = ?g5"
    by (simp add: Let_def)
  have docs: "documents ?g5 = documents ?g2"
    by simp
  have "\<exists>d \<in> set (documents ?g5). path d = ?p"
    unfolding docs by (simp only: set_document_has merge_document_has)
  then have m: "merge_document ?p ?g5 = ?g5"
    by (rule merge_document_noop)
  have s: "set_document ps ?g5 = ?g5"
    by (rule set_document_noop [OF docs])
  have rows: "unwind_rows ?p cks ?g5 = ?rows"
    by (rule unwind_rows_cong [OF docs])
  have keys: "set (map chunk_key (chunks ?g5)) =
      set (map chunk_key (chunks ?g2)) \<union>
      (\<lambda>row. (?p, page (snd row), idx (snd row))) ` set ?rows"
    by (simp only: fold_merge_has_chunk_row_frame fold_set_content_keys fold_merge_chunk_keys)
  have "\<forall>row \<in> set ?rows. \<exists>c \<in> set (chunks ?g5). chunk_matches ?p (snd row) c"
    unfolding has_match_iff keys by blast
  then have p4: "fold (\<lambda>row. merge_chunk ?p (snd row)) ?rows ?g5 = ?g5"
    by (rule fold_merge_chunk_noop)
  have "chunks ?g5 = chunks ?g4"
    by simp
  then have p5: "fold (\<lambda>row. set_content ?p (snd row)) ?rows ?g5 = ?g5"
    by (rule fold_set_content_noop)
  have "\<forall>row \<in> set ?rows. \<forall>c \<in> set (chunks ?g5). chunk_matches ?p (snd row) c \<longrightarrow>
     (fst row, chunk_id c) \<in> set (has_chunk ?g5)"
    using fold_merge_has_chunk_row_saturated [of ?rows ?g4 ?p] by simp
  then have p6: "fold (merge_has_chunk_row ?p) ?rows ?g5 = ?g5"
    by (rule fold_merge_has_chunk_row_noop)
  have "graph_query (Upsert ps cks) ?g5 = ?g5"
    by (simp only: graph_query.simps Let_def m s rows p4 p5 p6)
  then show ?thesis
    by (simp only: u)
qed

subsection \<open>Keys\<close>

lemma merge_document_paths:
  "set (map path (documents (merge_document p g))) = insert p (set (map path (documents g)))"
  by (auto simp: merge_document_def)

lemma merge_document_distinct:
  "distinct (map path (documents g)) \<Longrightarrow> distinct (map path (documents (merge_document p g)))"
  by (auto simp: merge_document_def)

lemma merge_chunk_distinct:
  "distinct (map chunk_key (chunks g)) \<Longrightarrow>
   distinct (map chunk_key (chunks (merge_chunk p ck g)))"
  by (auto simp: merge_chunk_def chunk_key_def chunk_matches_def)

lemma fold_merge_chunk_distinct:
  "distinct (map chunk_key (chunks g)) \<Longrightarrow>
   distinct (map chunk_key (chunks (fold (\<lambda>row. merge_chunk p (snd row)) rows g)))"
  by (induction rows arbitrary: g) (simp_all add: merge_chunk_distinct)

lemma unwind_rows_keys:
  assumes "\<exists>d \<in> set (documents g). path d = p"
  shows "(\<lambda>row. (p, page (snd row), idx (snd row))) ` set (unwind_rows p cks g) =
         (\<lambda>ck. (p, page ck, idx ck)) ` set cks"
  using assms by (force simp: unwind_rows_def image_iff)

text \<open>
  C2. Sending the statement that upserts a document and its chunks a second time, with
  the same parameters, leaves the store as the first time left it, whatever the store,
  the descriptor and the chunk list are. The statement merges by key: afterwards the paths
  of the Document nodes are the old ones and the path of the descriptor, the keys (path,
  page, index) of the Chunk nodes are the old ones and those of the chunk list, and a
  store in which no two Documents share a path, or no two Chunks share a key, is again
  such a store.
\<close>

theorem upsert_twice_is_upsert_once:
  "graph_query (Upsert ps cks) (graph_query (Upsert ps cks) g) = graph_query (Upsert ps cks) g \<and>
   set (map path (documents (graph_query (Upsert ps cks) g))) =
     insert (param_path ps) (set (map path (documents g))) \<and>
   set (map chunk_key (chunks (graph_query (Upsert ps cks) g))) =
     set (map chunk_key (chunks g)) \<union> (\<lambda>ck. (param_path ps, page ck, idx ck)) ` set cks \<and>
   (distinct (map path (documents g)) \<longrightarrow>
      distinct (map path (documents (graph_query (Upsert ps cks) g)))) \<and>
   (distinct (map chunk_key (chunks g)) \<longrightarrow>
      distinct (map chunk_key (chunks (graph_query (Upsert ps cks) g))))"
proof -
  let ?p = "param_path ps"
  let ?g2 = "set_document ps (merge_document ?p g)"
  let ?rows = "unwind_rows ?p cks ?g2"
  let ?g3 = "fold (\<lambda>row. merge_chunk ?p (snd row)) ?rows ?g2"
  let ?g4 = "fold (\<lambda>row. set_content ?p (snd row)) ?rows ?g3"
  let ?g5 = "fold (merge_has_chunk_row ?p) ?rows ?g4"
  have u: "graph_query (Upsert ps cks) g = ?g5"
    by (simp add: Let_def)
  have ex: "\<exists>d \<in> set (documents ?g2). path d = ?p"
    by (simp only: set_document_has merge_document_has)
  have 1: "set (map path (documents ?g5)) = insert ?p (set (map path (documents g)))"
    by (simp only: fold_merge_has_chunk_row_frame fold_set_content_frame fold_merge_chunk_frame
          map_path_set_document merge_document_paths)
  have 2: "set (map chunk_key (chunks ?g5)) =
      set (map chunk_key (chunks g)) \<union> (\<lambda>ck. (?p, page ck, idx ck)) ` set cks"
    by (simp only: fold_merge_has_chunk_row_frame fold_set_content_keys fold_merge_chunk_keys
          unwind_rows_keys [OF ex] set_document_frame merge_document_frame)
  have 3: "distinct (map path (documents g)) \<longrightarrow> distinct (map path (documents ?g5))"
    by (simp only: fold_merge_has_chunk_row_frame fold_set_content_frame fold_merge_chunk_frame
          map_path_set_document) (simp add: merge_document_distinct)
  have 4: "distinct (map chunk_key (chunks g)) \<longrightarrow> distinct (map chunk_key (chunks ?g5))"
  proof
    assume "distinct (map chunk_key (chunks g))"
    then have "distinct (map chunk_key (chunks ?g2))" by simp
    then have "distinct (map chunk_key (chunks ?g3))"
      by (rule fold_merge_chunk_distinct)
    then show "distinct (map chunk_key (chunks ?g5))"
      by (simp only: fold_merge_has_chunk_row_frame fold_set_content_keys)
  qed
  from upsert_idempotent [of ps cks g] 1 2 3 4 show ?thesis
    unfolding u by blast
qed

theorem upsert_twice_is_upsert_once_witness:
  "distinct (map path (documents empty_graph)) \<and>
   distinct (map chunk_key (chunks empty_graph)) \<and>
   graph_query demo_upsert (graph_query demo_upsert empty_graph) =
     graph_query demo_upsert empty_graph \<and>
   distinct (map path (documents (graph_query demo_upsert empty_graph))) \<and>
   distinct (map chunk_key (chunks (graph_query demo_upsert empty_graph))) \<and>
   length (documents (graph_query demo_upsert empty_graph)) = 1 \<and>
   length (chunks (graph_query demo_upsert empty_graph)) = 2"
proof -
  have d1: "distinct (map path (documents empty_graph))"
    by (simp add: empty_graph_def)
  have d2: "distinct (map chunk_key (chunks empty_graph))"
    by (simp add: empty_graph_def)
  note t = upsert_twice_is_upsert_once
    [of "\<lparr>param_path = JStr ''a.pdf'', param_title = JStr ''a.pdf'',
              param_file_name = JStr ''a.pdf'', param_page_count = 3,
              param_mime_type = JStr ''application/pdf''\<rparr>"
        "[\<lparr>page = 1, idx = 0, chunk_text = [97]\<rparr>, \<lparr>page = 1, idx = 2, chunk_text = [98]\<rparr>]"
        empty_graph, folded demo_upsert_def]
  from t have i: "graph_query demo_upsert (graph_query demo_upsert empty_graph) =
      graph_query demo_upsert empty_graph"
    by (rule conjunct1)
  from t d1 have a: "distinct (map path (documents (graph_query demo_upsert empty_graph)))"
    by blast
  from t d2 have b: "distinct (map chunk_key (chunks (graph_query demo_upsert empty_graph)))"
    by blast
  have n: "length (documents (graph_query demo_upsert empty_graph)) = 1"
    by (simp add: demo_upsert_def empty_graph_def store_defs Let_def)
  have m: "length (chunks (graph_query demo_upsert empty_graph)) = 2"
    by (simp add: demo_upsert_def empty_graph_def store_defs Let_def)
  from d1 d2 i a b n m show ?thesis
    by (intro conjI)
qed

section \<open>No blank chunk reaches the store\<close>

lemma chunk_pages_nonblank:
  "chunk_pages e pages cs co = Inr cks \<Longrightarrow> c \<in> set cks \<Longrightarrow> py_strip (chunk_text c) \<noteq> []"
  by (auto simp: chunk_pages_def chunk_mem_iff split: sum.splits)

lemma ingest_file_upserts:
  assumes "ingest_file e cs co p t f m pc w = (w', r)"
  shows "\<exists>evs. trace w' = trace w @ evs \<and> upserts_nonblank evs"
proof (cases "extract_pdf_text_by_page e p")
  case (Inl err)
  with assms have "trace w' = trace w @ [Extract p]"
    by (auto simp: ingest_file_def Let_def log_event_def)
  then show ?thesis by (auto simp: upserts_nonblank_def)
next
  case pages: (Inr pages)
  show ?thesis
  proof (cases "chunk_pages e pages cs co")
    case (Inl err)
    with assms pages have "trace w' = trace w @ [Extract p]"
      by (auto simp: ingest_file_def Let_def log_event_def)
    then show ?thesis by (auto simp: upserts_nonblank_def)
  next
    case (Inr cks)
    show ?thesis
    proof (cases "cks = []")
      case True
      with assms pages Inr have "\<exists>ps. trace w' = trace w @ [Extract p, GraphQuery (Register ps)]"
        by (auto simp: ingest_file_def Let_def log_event_def run_query_def)
      then show ?thesis by (auto simp: upserts_nonblank_def)
    next
      case False
      with assms pages Inr have "\<exists>ps. trace w' = trace w @ [Extract p, GraphQuery (Upsert ps cks)]"
        by (auto simp: ingest_file_def Let_def log_event_def run_query_def)
      then show ?thesis
        using chunk_pages_nonblank [OF Inr] by (auto simp: upserts_nonblank_def)
    qed
  qed
qed

lemma ingest_item_upserts:
  assumes "ingest_item e cs co item w = (w', r)"
  shows "\<exists>evs. trace w' = trace w @ evs \<and> upserts_nonblank evs"
proof -
  let ?w1 = "log_event (IsFile (item_path item)) w"
  have t1: "trace ?w1 = trace w @ [IsFile (item_path item)]"
    by (simp add: log_event_def)
  consider (skipped) "w' = w" | (checked) "w' = ?w1"
    | (ingested) t f r' where "ingest_file e cs co (item_path item) t f (item_mime_type item)
                          (item_page_count e item) ?w1 = (w', r')"
    using assms
    by (auto simp: ingest_item_def Let_def split: if_splits sum.splits bool.splits prod.splits)
  then show ?thesis
  proof cases
    case skipped
    then show ?thesis by (simp add: upserts_nonblank_def)
  next
    case checked
    with t1 show ?thesis by (simp add: upserts_nonblank_def)
  next
    case ingested
    from ingest_file_upserts [OF this] obtain evs
      where "trace w' = trace ?w1 @ evs" "upserts_nonblank evs" by blast
    with t1 have "trace w' = trace w @ (IsFile (item_path item) # evs) \<and>
        upserts_nonblank (IsFile (item_path item) # evs)"
      by (simp add: upserts_nonblank_def)
    then show ?thesis by blast
  qed
qed

text \<open>
  C7. Every chunk that \<open>chunk_pages\<close> returns has a text that is not empty and that
  \<^verbatim>\<open>strip\<close> does not empty, so it holds a character that is not white space; and a page
  whose text is empty has no chunk in the result. Hence whatever the loop body does for
  an entry, every chunk list it sends to the store in an upsert is free of blank texts.
\<close>

theorem chunk_pages_text_not_blank:
  "(chunk_pages e pages chunk_size chunk_overlap = Inr cks \<longrightarrow>
      (\<forall>c \<in> set cks. chunk_text c \<noteq> [] \<and> py_strip (chunk_text c) \<noteq> [] \<and>
                        (\<exists>x \<in> set (chunk_text c). \<not> py_isspace x)) \<and>
      (\<forall>n < length pages. pages ! n = [] \<longrightarrow> (\<forall>c \<in> set cks. page c \<noteq> 1 + int n))) \<and>
   (ingest_item e chunk_size chunk_overlap item w = (w', r) \<longrightarrow>
      (\<exists>evs. trace w' = trace w @ evs \<and> upserts_nonblank evs))"
proof (intro conjI impI)
  assume a: "chunk_pages e pages chunk_size chunk_overlap = Inr cks"
  then obtain split_text where cks: "cks = chunk_loop split_text 1 pages []"
    by (auto simp: chunk_pages_def split: sum.splits)
  have "\<And>c. c \<in> set cks \<Longrightarrow> py_strip (chunk_text c) \<noteq> []"
    using a by (rule chunk_pages_nonblank)
  moreover have "\<And>c. py_strip (chunk_text c) \<noteq> [] \<Longrightarrow>
       chunk_text c \<noteq> [] \<and> (\<exists>x \<in> set (chunk_text c). \<not> py_isspace x)"
    by (auto simp: py_strip_empty_iff)
  ultimately show "\<forall>c \<in> set cks. chunk_text c \<noteq> [] \<and> py_strip (chunk_text c) \<noteq> [] \<and>
                        (\<exists>x \<in> set (chunk_text c). \<not> py_isspace x)"
    by blast
  show "\<forall>n < length pages. pages ! n = [] \<longrightarrow> (\<forall>c \<in> set cks. page c \<noteq> 1 + int n)"
    by (auto simp: cks chunk_mem_iff)
next
  assume "ingest_item e chunk_size chunk_overlap item w = (w', r)"
  then show "\<exists>evs. trace w' = trace w @ evs \<and> upserts_nonblank evs"
    by (rule ingest_item_upserts)
qed

theorem chunk_pages_text_not_blank_witness:
  "chunk_pages demo_env [[97, 32, 98], [], [99]] 1000 200 =
     Inr [\<lparr>page = 1, idx = 0, chunk_text = [97]\<rparr>, \<lparr>page = 1, idx = 2, chunk_text = [98]\<rparr>,
          \<lparr>page = 3, idx = 0, chunk_text = [99]\<rparr>] \<and>
   py_strip (chunk_text \<lparr>page = 1, idx = 2, chunk_text = [98]\<rparr>) \<noteq> [] \<and>
   page \<lparr>page = 3, idx = 0, chunk_text = [99]\<rparr> \<noteq> 1 + int 1"
proof -
  have h: "chunk_pages demo_env [[97, 32, 98], [], [99]] 1000 200 =
     Inr [\<lparr>page = 1, idx = 0, chunk_text = [97]\<rparr>, \<lparr>page = 1, idx = 2, chunk_text = [98]\<rparr>,
          \<lparr>page = 3, idx = 0, chunk_text = [99]\<rparr>]"
    by (simp add: chunk_pages_def demo_env_def char_split_def py_strip_def py_isspace_def)
  note t = chunk_pages_text_not_blank [THEN conjunct1, THEN mp, OF h]
  from t have "py_strip (chunk_text \<lparr>page = 1, idx = 2, chunk_text = [98]\<rparr>) \<noteq> []"
    by simp
  moreover from t have "page \<lparr>page = 3, idx = 0, chunk_text = [99]\<rparr> \<noteq> 1 + int 1"
    by simp
  ultimately show ?thesis using h by blast
qed

end
